theory Spec2Isabelle
  imports Complex_Main "HOL-Library.Multiset"
begin

section \<open>Geometry primitives (pointcloud.h, pointcloud.cpp)\<close>

text \<open>
  A \<open>double\<close> is modelled as a \<open>real\<close>: rounding and overflow are not represented.
  Divisions whose divisor can be zero:
  \<^item> the quotients of \<open>dnn.cpp\<close> and of \<open>sd\<close> in \<open>cluster.cpp\<close> are written out with
    their IEEE-754 results (see \<open>dbl\<close> in the section on the characteristic length);
  \<^item> the divisions by a norm in \<open>generate_triplets\<close> are guarded in the source by the tests
    on the distance;
  \<^item> the centroid of \<open>smoothen_cloud\<close> divides by the number of neighbours found, which is
    at least 1 for a radius \<open>r \<ge> 0\<close>;
  \<^item> the triplet metric divides by its scale factor without a guard: the quotient is
    modelled for a scale different from 0 only (for the scale 0 the source yields an
    infinity or NaN, the model the number 0).

  \<open>class Point\<close> has the public members \<open>x\<close>, \<open>y\<close>, \<open>z\<close>, \<open>cluster_ids\<close> and \<open>index\<close>.
  The arithmetic operators of the source build their result with \<open>Point ret;\<close> or
  \<open>Point(x, y, z)\<close>, which leave \<open>index\<close> unset and \<open>cluster_ids\<close> empty; no code reads
  the index of such a result, and the model puts 0 there.
\<close>

record Point =
  p_x :: real
  p_y :: real
  p_z :: real
  cluster_ids :: "nat set"
  p_index :: nat

definition Point3 :: "real \<Rightarrow> real \<Rightarrow> real \<Rightarrow> Point" where
  "Point3 a b c = \<lparr>p_x = a, p_y = b, p_z = c, cluster_ids = {}, p_index = 0\<rparr>"

definition Point4 :: "real \<Rightarrow> real \<Rightarrow> real \<Rightarrow> nat \<Rightarrow> Point" where
  "Point4 a b c i = \<lparr>p_x = a, p_y = b, p_z = c, cluster_ids = {}, p_index = i\<rparr>"

text \<open>\<open>Point::as_vector\<close>: the three coordinates, here a triple (the source's
  \<open>std::vector<double>\<close> always has size 3 on this path).\<close>

type_synonym CoordPoint = "real \<times> real \<times> real"

definition as_vector :: "Point \<Rightarrow> CoordPoint" where
  "as_vector p = (p_x p, p_y p, p_z p)"

definition Point_of_vector :: "CoordPoint \<Rightarrow> Point" where
  "Point_of_vector v = (case v of (a, b, c) \<Rightarrow> Point3 a b c)"

definition norm_p :: "Point \<Rightarrow> real" where
  "norm_p p = sqrt ((p_x p * p_x p) + (p_y p * p_y p) + (p_z p * p_z p))"

definition squared_norm :: "Point \<Rightarrow> real" where
  "squared_norm p = (p_x p * p_x p) + (p_y p * p_y p) + (p_z p * p_z p)"

definition p_add :: "Point \<Rightarrow> Point \<Rightarrow> Point" where
  "p_add p q = Point3 (p_x p + p_x q) (p_y p + p_y q) (p_z p + p_z q)"

definition p_sub :: "Point \<Rightarrow> Point \<Rightarrow> Point" where
  "p_sub p q = Point3 (p_x p - p_x q) (p_y p - p_y q) (p_z p - p_z q)"

definition p_dot :: "Point \<Rightarrow> Point \<Rightarrow> real" where
  "p_dot p q = p_x p * p_x q + p_y p * p_y q + p_z p * p_z q"

definition p_div :: "Point \<Rightarrow> real \<Rightarrow> Point" where
  "p_div p c = Point3 (p_x p / c) (p_y p / c) (p_z p / c)"

definition p_scale :: "real \<Rightarrow> Point \<Rightarrow> Point" where
  "p_scale c p = Point3 (c * p_x p) (c * p_y p) (c * p_z p)"

text \<open>\<open>class PointCloud : public std::vector<Point>\<close> with its two private flags.\<close>

record PointCloud =
  points :: "Point list"
  points2d :: bool
  ordered :: bool

definition isOrdered :: "PointCloud \<Rightarrow> bool" where
  "isOrdered cloud = ordered cloud"

definition setOrdered :: "bool \<Rightarrow> PointCloud \<Rightarrow> PointCloud" where
  "setOrdered b cloud = cloud\<lparr>ordered := b\<rparr>"

section \<open>Triplets and their dissimilarity (triplet.h, triplet.cpp)\<close>

record triplet =
  point_index_a :: nat
  point_index_b :: nat
  point_index_c :: nat
  center :: Point
  direction :: Point
  error :: real

text \<open>\<open>operator<\<close> of \<open>struct triplet\<close>.\<close>

definition triplet_less :: "triplet \<Rightarrow> triplet \<Rightarrow> bool" where
  "triplet_less t1 t2 = (error t1 < error t2)"

text \<open>
  \<open>ScaleTripletMetric::operator()\<close>.  In
  \<open>lhs.direction * (lhs.center - rhs.center) * lhs.direction\<close> the left product is the
  scalar product of two points, the right one the product of a scalar with a point.
\<close>

definition perpendicularDistanceA :: "triplet \<Rightarrow> triplet \<Rightarrow> real" where
  "perpendicularDistanceA lhs rhs =
     squared_norm (p_add (p_sub (center rhs) (center lhs))
       (p_scale (p_dot (direction lhs) (p_sub (center lhs) (center rhs))) (direction lhs)))"

definition perpendicularDistanceB :: "triplet \<Rightarrow> triplet \<Rightarrow> real" where
  "perpendicularDistanceB lhs rhs =
     squared_norm (p_add (p_sub (center lhs) (center rhs))
       (p_scale (p_dot (direction rhs) (p_sub (center rhs) (center lhs))) (direction rhs)))"

definition anglecos :: "triplet \<Rightarrow> triplet \<Rightarrow> real" where
  "anglecos lhs rhs =
     (let c0 = p_dot (direction lhs) (direction rhs);
          c1 = (if c0 > 1 then 1 else c0);
          c2 = (if c1 < - 1 then - 1 else c1)
      in c2)"

text \<open>\<open>ScaleTripletMetric::operator()\<close>.  The quotient by \<open>scale\<close> is the one of the reals: it
  is meant for \<open>scale \<noteq> 0\<close>.\<close>

definition ScaleTripletMetric :: "real \<Rightarrow> triplet \<Rightarrow> triplet \<Rightarrow> real" where
  "ScaleTripletMetric scale lhs rhs =
     (if \<bar>anglecos lhs rhs\<bar> < 1 / 10 ^ 8 then 10 ^ 8
      else sqrt (max (perpendicularDistanceA lhs rhs) (perpendicularDistanceB lhs rhs)) / scale
           + \<bar>tan (arccos (anglecos lhs rhs))\<bar>)"

text \<open>Two parallel unit-direction triplets whose centres are \<open>10\<^sup>8\<close> apart.\<close>

definition tr_origin :: triplet where
  "tr_origin = \<lparr>point_index_a = 0, point_index_b = 1, point_index_c = 2,
     center = Point3 0 0 0, direction = Point3 1 0 0, error = 0\<rparr>"

definition tr_far :: triplet where
  "tr_far = \<lparr>point_index_a = 3, point_index_b = 4, point_index_c = 5,
     center = Point3 0 (10 ^ 8) 0, direction = Point3 1 0 0, error = 0\<rparr>"

definition tr_up :: triplet where
  "tr_up = \<lparr>point_index_a = 3, point_index_b = 4, point_index_c = 5,
     center = Point3 0 3 0, direction = Point3 0 1 0, error = 0\<rparr>"

section \<open>Spatial index and sorting: the parts taken from outside the sources\<close>

text \<open>A node of the kd-tree as the callers build and read it: the coordinates, the
  \<open>data\<close> pointer (here the cloud position it points to) and the \<open>index\<close> member.\<close>

record KdNode =
  kd_point :: CoordPoint
  kd_data :: nat
  kd_index :: nat

text \<open>A node built from coordinates alone, as in \<open>nodes.push_back(cloud[i].as_vector())\<close>:
  \<open>data\<close> and \<open>index\<close> keep their defaults, which the callers on these paths never read.\<close>

definition KdNode_of_point :: "CoordPoint \<Rightarrow> KdNode" where
  "KdNode_of_point v = \<lparr>kd_point = v, kd_data = 0, kd_index = 0\<rparr>"

definition sqdist :: "CoordPoint \<Rightarrow> CoordPoint \<Rightarrow> real" where
  "sqdist v w =
     (case v of (a, b, c) \<Rightarrow> case w of (a', b', c') \<Rightarrow>
        (a - a') * (a - a') + (b - b') * (b - b') + (c - c') * (c - c'))"

text \<open>
  Modelled from the spec: \<open>KdTree::k_nearest_neighbors\<close> (kdtree/kdtree.hpp is not part of
  the sources at hand).  Section 4.B: the query returns a sequence of (node, squared distance)
  of length at most \<open>k\<close>, ascending by distance, ties broken stably by insertion index; the
  query point, if present, is returned.
\<close>

definition k_nearest_neighbors :: "KdNode list \<Rightarrow> CoordPoint \<Rightarrow> nat \<Rightarrow> KdNode list \<times> real list" where
  "k_nearest_neighbors nodes q k =
     (let result = take k (sort_key (\<lambda>n. sqdist (kd_point n) q) nodes)
      in (result, map (\<lambda>n. sqdist (kd_point n) q) result))"

text \<open>
  Modelled from the spec: \<open>KdTree::range_nearest_neighbors\<close> (not part of the sources at
  hand).  Section 4.B: the query returns the nodes with Euclidean distance at most \<open>r\<close>; the
  query point, if present, is returned.  The nodes are listed in insertion order.
\<close>

definition range_nearest_neighbors :: "KdNode list \<Rightarrow> CoordPoint \<Rightarrow> real \<Rightarrow> KdNode list" where
  "range_nearest_neighbors nodes q r = filter (\<lambda>n. sqrt (sqdist (kd_point n) q) \<le> r) nodes"

text \<open>
  \<open>std::sort\<close> is a parameter of every function that calls it.  What the C++ standard
  promises of it: the result is a permutation of the input in which no element is less than
  an earlier one.  The order of equivalent elements is not promised.
\<close>

definition std_sort_spec :: "('a \<Rightarrow> 'a \<Rightarrow> bool) \<Rightarrow> ('a list \<Rightarrow> 'a list) \<Rightarrow> bool" where
  "std_sort_spec lt std_sort =
     (\<forall>xs. mset (std_sort xs) = mset xs \<and> sorted_wrt (\<lambda>x y. \<not> lt y x) (std_sort xs))"

text \<open>A sorting function that meets this contract and keeps equivalent elements in their
  order: a stable insertion sort.\<close>

definition stable_sort :: "('a \<Rightarrow> real) \<Rightarrow> 'a list \<Rightarrow> 'a list" where
  "stable_sort key xs = sort_key key xs"

subsection \<open>std::sort of the GNU C++ library\<close>

text \<open>
  Where the order of equivalent elements matters, it is the one of the implementation in
  use.  The following is \<open>std::sort\<close> of the GNU C++ library (libstdc++, file
  \<open>bits/stl_algo.h\<close>, function \<open>std::__sort\<close>): an introsort.  A range of more than 16 elements
  (\<open>_S_threshold\<close>) is partitioned around the median of three of its elements, and its two
  parts are treated in the same way; when this has been done \<open>2 * lg n\<close> times in depth, the
  range is sorted by heapsort (\<open>std::__partial_sort\<close>); at the end one insertion sort runs
  over the whole sequence.

  An iterator is a position in the list, and every function works on the range
  \<open>[first, lst)\<close> of the list it is given.  The names \<open>cmp\<close>, \<open>lst\<close> and \<open>cutp\<close> stand for
  \<open>__comp\<close>, \<open>__last\<close> and \<open>__cut\<close> of the library.  The heapsort is not modelled: it is the
  parameter \<open>partial_sort\<close>.  The inner loops of \<open>__unguarded_partition\<close> and of
  \<open>__unguarded_linear_insert\<close> check no bound in the library, where the elements
  themselves stop them; here they stop at the ends of the list in any case.
\<close>

text \<open>\<open>std::iter_swap\<close>: the elements at two positions are exchanged.\<close>

definition iter_swap :: "'a list \<Rightarrow> nat \<Rightarrow> nat \<Rightarrow> 'a list" where
  "iter_swap xs i j = xs[i := xs ! j, j := xs ! i]"

text \<open>\<open>__move_median_to_first\<close>: the median of the elements at \<open>a\<close>, \<open>b\<close> and \<open>c\<close> is
  exchanged with the element at \<open>result\<close>.\<close>

definition move_median_to_first ::
    "('a \<Rightarrow> 'a \<Rightarrow> bool) \<Rightarrow> 'a list \<Rightarrow> nat \<Rightarrow> nat \<Rightarrow> nat \<Rightarrow> nat \<Rightarrow> 'a list" where
  "move_median_to_first cmp xs result a b c =
     (if cmp (xs ! a) (xs ! b)
      then (if cmp (xs ! b) (xs ! c) then iter_swap xs result b
            else if cmp (xs ! a) (xs ! c) then iter_swap xs result c
            else iter_swap xs result a)
      else if cmp (xs ! a) (xs ! c) then iter_swap xs result a
      else if cmp (xs ! b) (xs ! c) then iter_swap xs result c
      else iter_swap xs result b)"

text \<open>The two inner loops of \<open>__unguarded_partition\<close>,
  \<open>while (__comp(__first, __pivot)) ++__first;\<close> and
  \<open>while (__comp(__pivot, __last)) --__last;\<close>, with the position at which each stops.\<close>

function scan_up :: "('a \<Rightarrow> 'a \<Rightarrow> bool) \<Rightarrow> 'a list \<Rightarrow> nat \<Rightarrow> nat \<Rightarrow> nat" where
  "scan_up cmp xs pivot first =
     (if first < length xs \<and> cmp (xs ! first) (xs ! pivot)
      then scan_up cmp xs pivot (first + 1) else first)"
  by pat_completeness auto
termination
  by (relation "measure (\<lambda>(cmp, xs, pivot, first). length xs - first)") auto

declare scan_up.simps [simp del]

function scan_down :: "('a \<Rightarrow> 'a \<Rightarrow> bool) \<Rightarrow> 'a list \<Rightarrow> nat \<Rightarrow> nat \<Rightarrow> nat" where
  "scan_down cmp xs pivot lst =
     (if 0 < lst \<and> cmp (xs ! pivot) (xs ! lst)
      then scan_down cmp xs pivot (lst - 1) else lst)"
  by pat_completeness auto
termination
  by (relation "measure (\<lambda>(cmp, xs, pivot, lst). lst)") auto

declare scan_down.simps [simp del]

lemma scan_up_ge: "first \<le> scan_up cmp xs pivot first"
proof (induction cmp xs pivot first rule: scan_up.induct)
  case (1 cmp xs pivot first)
  show ?case
  proof (cases "first < length xs \<and> cmp (xs ! first) (xs ! pivot)")
    case True
    then show ?thesis using "1.IH" by (subst scan_up.simps) simp
  next
    case False
    then show ?thesis by (subst scan_up.simps) auto
  qed
qed

lemma scan_down_le: "scan_down cmp xs pivot lst \<le> lst"
proof (induction cmp xs pivot lst rule: scan_down.induct)
  case (1 cmp xs pivot lst)
  show ?case
  proof (cases "0 < lst \<and> cmp (xs ! pivot) (xs ! lst)")
    case True
    then show ?thesis using "1.IH" by (subst scan_down.simps) simp
  next
    case False
    then show ?thesis by (subst scan_down.simps) auto
  qed
qed

text \<open>\<open>__unguarded_partition\<close>: after the first loop \<open>__last\<close> is decremented and the second
  loop runs; if \<open>!(__first < __last)\<close> the function returns \<open>__first\<close>, otherwise the two
  elements are exchanged, \<open>__first\<close> is incremented and all this is repeated.  The value is
  the list together with the position returned.\<close>

function unguarded_partition ::
    "('a \<Rightarrow> 'a \<Rightarrow> bool) \<Rightarrow> 'a list \<Rightarrow> nat \<Rightarrow> nat \<Rightarrow> nat \<Rightarrow> 'a list \<times> nat" where
  "unguarded_partition cmp xs first lst pivot =
     (let first1 = scan_up cmp xs pivot first;
          lst1 = scan_down cmp xs pivot (lst - 1)
      in if \<not> first1 < lst1 then (xs, first1)
         else unguarded_partition cmp (iter_swap xs first1 lst1) (first1 + 1) lst1 pivot)"
  by pat_completeness auto
termination
proof (relation "measure (\<lambda>(cmp, xs, first, lst, pivot). lst - first)", goal_cases)
  case 1
  show ?case by simp
next
  case (2 cmp xs first lst pivot first1 lst1)
  have "first \<le> first1" unfolding 2(1) by (rule scan_up_ge)
  moreover have "lst1 \<le> lst - 1" unfolding 2(2) by (rule scan_down_le)
  ultimately show ?case using 2(3) by simp
qed

declare unguarded_partition.simps [simp del]

text \<open>\<open>__unguarded_partition_pivot\<close>: the median of the elements at \<open>first + 1\<close>, at the
  middle and at \<open>lst - 1\<close> becomes the pivot at \<open>first\<close>, and the range behind it is
  partitioned.\<close>

definition unguarded_partition_pivot ::
    "('a \<Rightarrow> 'a \<Rightarrow> bool) \<Rightarrow> 'a list \<Rightarrow> nat \<Rightarrow> nat \<Rightarrow> 'a list \<times> nat" where
  "unguarded_partition_pivot cmp xs first lst =
     (let mid = first + (lst - first) div 2;
          xs1 = move_median_to_first cmp xs first (first + 1) mid (lst - 1)
      in unguarded_partition cmp xs1 (first + 1) lst first)"

text \<open>\<open>__introsort_loop\<close>: \<open>while (__last - __first > 16)\<close>, with the body: if
  \<open>__depth_limit == 0\<close> the range is sorted by \<open>__partial_sort\<close> and the function returns;
  otherwise \<open>__depth_limit\<close> is decremented, the range is partitioned at \<open>__cut\<close>, the function
  calls itself on \<open>[__cut, __last)\<close> and goes on with \<open>__last = __cut\<close>.\<close>

function introsort_loop ::
    "('a list \<Rightarrow> nat \<Rightarrow> nat \<Rightarrow> 'a list) \<Rightarrow> ('a \<Rightarrow> 'a \<Rightarrow> bool) \<Rightarrow> 'a list \<Rightarrow> nat \<Rightarrow> nat \<Rightarrow> nat \<Rightarrow> 'a list" where
  "introsort_loop partial_sort cmp xs first lst depth_limit =
     (if lst - first > 16
      then (if depth_limit = 0 then partial_sort xs first lst
            else (case unguarded_partition_pivot cmp xs first lst of
                    (xs1, cutp) \<Rightarrow>
                      introsort_loop partial_sort cmp
                        (introsort_loop partial_sort cmp xs1 cutp lst (depth_limit - 1))
                        first cutp (depth_limit - 1)))
      else xs)"
  by pat_completeness auto
termination
  by (relation "measure (\<lambda>(partial_sort, cmp, xs, first, lst, depth_limit). depth_limit)") auto

declare introsort_loop.simps [simp del]

text \<open>\<open>__unguarded_linear_insert\<close>, with \<open>val\<close> the element found at \<open>lst\<close>:
  \<open>while (__comp(__val, __next)) { *__last = *__next; __last = __next; --__next; }\<close>, where
  \<open>__next\<close> is the position before \<open>__last\<close>, and then \<open>*__last = __val\<close>.\<close>

function unguarded_linear_insert :: "('a \<Rightarrow> 'a \<Rightarrow> bool) \<Rightarrow> 'a list \<Rightarrow> 'a \<Rightarrow> nat \<Rightarrow> 'a list" where
  "unguarded_linear_insert cmp xs val lst =
     (if 0 < lst \<and> cmp val (xs ! (lst - 1))
      then unguarded_linear_insert cmp (xs[lst := xs ! (lst - 1)]) val (lst - 1)
      else xs[lst := val])"
  by pat_completeness auto
termination
  by (relation "measure (\<lambda>(cmp, xs, val, lst). lst)") auto

declare unguarded_linear_insert.simps [simp del]

text \<open>\<open>std::move_backward(first, i, i + 1)\<close>: the elements of \<open>[first, i)\<close> move up by one
  position.\<close>

definition move_backward :: "'a list \<Rightarrow> nat \<Rightarrow> nat \<Rightarrow> 'a list" where
  "move_backward xs first i = take (first + 1) xs @ take (i - first) (drop first xs) @ drop (i + 1) xs"

text \<open>The body of the loop of \<open>__insertion_sort\<close> for the position \<open>i\<close>: an element less
  than the one at \<open>first\<close> goes to \<open>first\<close>, behind which all others move up; any other
  element is inserted by \<open>__unguarded_linear_insert\<close>.\<close>

definition insertion_step :: "('a \<Rightarrow> 'a \<Rightarrow> bool) \<Rightarrow> nat \<Rightarrow> 'a list \<Rightarrow> nat \<Rightarrow> 'a list" where
  "insertion_step cmp first xs i =
     (if cmp (xs ! i) (xs ! first)
      then (let val = xs ! i in (move_backward xs first i)[first := val])
      else unguarded_linear_insert cmp xs (xs ! i) i)"

text \<open>\<open>__insertion_sort\<close> with its loop over \<open>first + 1\<close>, ..., \<open>lst - 1\<close>;
  \<open>__unguarded_insertion_sort\<close> with its loop over \<open>first\<close>, ..., \<open>lst - 1\<close>; and
  \<open>__final_insertion_sort\<close>, which uses the first on the leading 16 elements and the second
  on the others.\<close>

definition insertion_sort :: "('a \<Rightarrow> 'a \<Rightarrow> bool) \<Rightarrow> 'a list \<Rightarrow> nat \<Rightarrow> nat \<Rightarrow> 'a list" where
  "insertion_sort cmp xs first lst =
     (if first = lst then xs else foldl (insertion_step cmp first) xs [first + 1 ..< lst])"

definition unguarded_insertion_sort :: "('a \<Rightarrow> 'a \<Rightarrow> bool) \<Rightarrow> 'a list \<Rightarrow> nat \<Rightarrow> nat \<Rightarrow> 'a list" where
  "unguarded_insertion_sort cmp xs first lst =
     foldl (\<lambda>ys i. unguarded_linear_insert cmp ys (ys ! i) i) xs [first ..< lst]"

definition final_insertion_sort :: "('a \<Rightarrow> 'a \<Rightarrow> bool) \<Rightarrow> 'a list \<Rightarrow> nat \<Rightarrow> nat \<Rightarrow> 'a list" where
  "final_insertion_sort cmp xs first lst =
     (if lst - first > 16
      then unguarded_insertion_sort cmp (insertion_sort cmp xs first (first + 16)) (first + 16) lst
      else insertion_sort cmp xs first lst)"

text \<open>\<open>std::__lg\<close>, the integer part of the binary logarithm, and \<open>std::__sort\<close> on the
  whole list.\<close>

fun lg :: "nat \<Rightarrow> nat" where
  "lg n = (if n < 2 then 0 else 1 + lg (n div 2))"

declare lg.simps [simp del]

definition libstdcxx_sort ::
    "('a list \<Rightarrow> nat \<Rightarrow> nat \<Rightarrow> 'a list) \<Rightarrow> ('a \<Rightarrow> 'a \<Rightarrow> bool) \<Rightarrow> 'a list \<Rightarrow> 'a list" where
  "libstdcxx_sort partial_sort cmp xs =
     (if xs = [] then xs
      else final_insertion_sort cmp
             (introsort_loop partial_sort cmp xs 0 (length xs) (lg (length xs) * 2))
             0 (length xs))"

text \<open>What stands for the heapsort of the library where a closed term is needed and the
  heapsort is not reached: it leaves the list as it is.\<close>

definition partial_sort_unreached :: "'a list \<Rightarrow> nat \<Rightarrow> nat \<Rightarrow> 'a list" where
  "partial_sort_unreached xs first lst = xs"

section \<open>Smoothing (pointcloud.cpp)\<close>

text \<open>\<open>std::accumulate(l.begin(), l.end(), 0.0)\<close>\<close>

definition accumulate :: "real list \<Rightarrow> real" where
  "accumulate l = foldl (+) 0 l"

text \<open>The body of the loop of \<open>smoothen_cloud\<close> for one point of the cloud.\<close>

definition smoothen_point :: "KdNode list \<Rightarrow> real \<Rightarrow> Point \<Rightarrow> Point" where
  "smoothen_point nodes r point =
     (let result = range_nearest_neighbors nodes (as_vector point) r;
          result_size = length result;
          x_list = map (\<lambda>it. fst (kd_point it)) result;
          y_list = map (\<lambda>it. fst (snd (kd_point it))) result;
          z_list = map (\<lambda>it. snd (snd (kd_point it))) result
      in \<lparr>p_x = accumulate x_list / real result_size,
          p_y = accumulate y_list / real result_size,
          p_z = accumulate z_list / real result_size,
          cluster_ids = {}, p_index = p_index point\<rparr>)"

text \<open>
  \<open>smoothen_cloud\<close>; \<open>result_cloud\<close> is the output parameter, given with its content at the
  call.  For \<open>r = 0\<close> the source assigns \<open>result_cloud = cloud\<close>.  The value given here
  is the one for a \<open>result_cloud\<close> that holds no points at the call, as in \<open>main.cpp\<close>: all
  points are then copies of those of \<open>cloud\<close>.  (Points that \<open>result_cloud\<close> already holds
  would be assigned to by \<open>Point::operator=\<close>, which copies the coordinates and leaves
  \<open>index\<close> and \<open>cluster_ids\<close> as they are.)
\<close>

definition smoothen_cloud :: "PointCloud \<Rightarrow> PointCloud \<Rightarrow> real \<Rightarrow> PointCloud" where
  "smoothen_cloud cloud result_cloud r =
     (if r = 0 then cloud
      else
        let nodes = map (\<lambda>p. KdNode_of_point (as_vector p)) (points cloud);
            pushed = result_cloud\<lparr>points := points result_cloud @ map (smoothen_point nodes r) (points cloud)\<rparr>
        in setOrdered (isOrdered cloud) pushed)"

text \<open>\<open>PointCloud::PointCloud()\<close> sets \<open>points2d\<close> and leaves \<open>ordered\<close> as it is found
  (\<open>ord\<close>).\<close>

definition PointCloud_new :: "bool \<Rightarrow> PointCloud" where
  "PointCloud_new ord = \<lparr>points = [], points2d = False, ordered = ord\<rparr>"

text \<open>The words of the specification: the points of the cloud within Euclidean distance \<open>r\<close>
  of \<open>p\<close>, and the centroid of a list of points.\<close>

definition neighbours :: "PointCloud \<Rightarrow> real \<Rightarrow> Point \<Rightarrow> Point list" where
  "neighbours cloud r p = filter (\<lambda>c. norm_p (p_sub c p) \<le> r) (points cloud)"

definition centroid :: "Point list \<Rightarrow> CoordPoint" where
  "centroid ps =
     (sum_list (map p_x ps) / real (length ps),
      sum_list (map p_y ps) / real (length ps),
      sum_list (map p_z ps) / real (length ps))"

section \<open>Triplet generation (triplet.cpp)\<close>

text \<open>In this section \<open>idx_a\<close>, \<open>idx_b\<close> and \<open>idx_c\<close> are the variables \<open>point_index_a\<close>,
  \<open>point_index_b\<close> and \<open>point_index_c\<close> of the source (the members of \<open>triplet\<close> keep these names).\<close>

text \<open>The kd-tree nodes of \<open>generate_triplets\<close>: node \<open>i\<close> carries the coordinates of
  \<open>cloud[i]\<close>, a pointer to \<open>indices[i] = i\<close> and \<open>cloud[i].index\<close>.\<close>

definition triplet_nodes :: "PointCloud \<Rightarrow> KdNode list" where
  "triplet_nodes cloud =
     map (\<lambda>i. \<lparr>kd_point = as_vector (points cloud ! i), kd_data = i,
                 kd_index = p_index (points cloud ! i)\<rparr>) [0 ..< length (points cloud)]"

definition Point_of_node :: "KdNode \<Rightarrow> Point" where
  "Point_of_node nd = (Point_of_vector (kd_point nd))\<lparr>p_index := kd_index nd\<rparr>"

text \<open>The loop over \<open>result_index_c\<close>, on the entries of \<open>result\<close> and \<open>distances\<close> that
  follow \<open>result_index_a\<close>.\<close>

fun loop_c :: "PointCloud \<Rightarrow> real \<Rightarrow> Point \<Rightarrow> nat \<Rightarrow> Point \<Rightarrow> nat \<Rightarrow> Point \<Rightarrow>
    (KdNode \<times> real) list \<Rightarrow> triplet list" where
  "loop_c cloud a point_b idx_b point_a idx_a direction_ab [] = []"
| "loop_c cloud a point_b idx_b point_a idx_a direction_ab ((nc, dc) # rest) =
     (if dc = 0 then loop_c cloud a point_b idx_b point_a idx_a direction_ab rest
      else
        let point_c = Point_of_node nc in
        if isOrdered cloud \<and> p_index point_b > p_index point_c
        then loop_c cloud a point_b idx_b point_a idx_a direction_ab rest
        else
          let idx_c = kd_data nc;
              direction_bc0 = p_sub point_c point_b;
              bc_norm = norm_p direction_bc0;
              direction_bc = p_div direction_bc0 bc_norm;
              angle = p_dot direction_ab direction_bc;
              err = 1 - angle
          in (if err \<le> a
              then [\<lparr>point_index_a = idx_a, point_index_b = idx_b,
                     point_index_c = idx_c,
                     center = p_div (p_add (p_add point_a point_b) point_c) 3,
                     direction = p_div (p_sub point_c point_b) (norm_p (p_sub point_c point_b)),
                     error = err\<rparr>]
              else [])
             @ loop_c cloud a point_b idx_b point_a idx_a direction_ab rest)"

text \<open>The loop over \<open>result_index_a\<close>, on the entries from the current one on.\<close>

fun loop_a :: "PointCloud \<Rightarrow> real \<Rightarrow> Point \<Rightarrow> nat \<Rightarrow> (KdNode \<times> real) list \<Rightarrow> triplet list" where
  "loop_a cloud a point_b idx_b [] = []"
| "loop_a cloud a point_b idx_b ((na, da) # rest) =
     (if da = 0 then loop_a cloud a point_b idx_b rest
      else
        let point_a = Point_of_node na in
        if isOrdered cloud \<and> p_index point_a > p_index point_b
        then loop_a cloud a point_b idx_b rest
        else
          let idx_a = kd_data na;
              direction_ab0 = p_sub point_b point_a;
              ab_norm = norm_p direction_ab0;
              direction_ab = p_div direction_ab0 ab_norm
          in loop_c cloud a point_b idx_b point_a idx_a direction_ab rest
             @ loop_a cloud a point_b idx_b rest)"

text \<open>The candidates of one midpoint, in the order in which they are pushed; the loop
  over \<open>result_index_a\<close> starts at 1.\<close>

definition triplet_candidates :: "PointCloud \<Rightarrow> nat \<Rightarrow> real \<Rightarrow> nat \<Rightarrow> triplet list" where
  "triplet_candidates cloud k a idx_b =
     (let point_b = points cloud ! idx_b;
          found = k_nearest_neighbors (triplet_nodes cloud) (as_vector point_b) k
      in loop_a cloud a point_b idx_b (drop 1 (zip (fst found) (snd found))))"

text \<open>What one pass of the loop over \<open>point_index_b\<close> appends to \<open>triplets\<close>.\<close>

definition midpoint_triplets ::
    "(triplet list \<Rightarrow> triplet list) \<Rightarrow> PointCloud \<Rightarrow> nat \<Rightarrow> nat \<Rightarrow> real \<Rightarrow> nat \<Rightarrow> triplet list" where
  "midpoint_triplets std_sort cloud k n a idx_b =
     (let sorted_candidates = std_sort (triplet_candidates cloud k a idx_b)
      in take (min n (length sorted_candidates)) sorted_candidates)"

definition generate_triplets ::
    "(triplet list \<Rightarrow> triplet list) \<Rightarrow> PointCloud \<Rightarrow> triplet list \<Rightarrow> nat \<Rightarrow> nat \<Rightarrow> real \<Rightarrow> triplet list" where
  "generate_triplets std_sort cloud triplets k n a =
     foldl (\<lambda>ts idx_b. ts @ midpoint_triplets std_sort cloud k n a idx_b)
           triplets [0 ..< length (points cloud)]"

text \<open>Four points on a line, as an unordered and as an ordered cloud.\<close>

definition line4 :: "bool \<Rightarrow> PointCloud" where
  "line4 ord = \<lparr>points = [Point4 0 0 0 0, Point4 1 0 0 1, Point4 2 0 0 2, Point4 3 0 0 3],
                 points2d = False, ordered = ord\<rparr>"

text \<open>The unit vector \<open>(q - p) / |q - p|\<close>, used to state the properties of a triplet.\<close>

definition unit_vector :: "Point \<Rightarrow> Point \<Rightarrow> Point" where
  "unit_vector p q = p_div (p_sub q p) (norm_p (p_sub q p))"

text \<open>The two candidates of the midpoint 1 of \<open>line4\<close>.\<close>

definition t012 :: triplet where
  "t012 = \<lparr>point_index_a = 0, point_index_b = 1, point_index_c = 2,
       center = Point3 1 0 0, direction = Point3 1 0 0, error = 0\<rparr>"

definition t013 :: triplet where
  "t013 = \<lparr>point_index_a = 0, point_index_b = 1, point_index_c = 3,
       center = Point3 (4 / 3) 0 0, direction = Point3 1 0 0, error = 0\<rparr>"

text \<open>Ten points on a line whose pairwise distances are all different, so that every
  nearest-neighbour query has one answer only.\<close>

definition ruler10 :: PointCloud where
  "ruler10 = \<lparr>points = [Point4 0 0 0 0, Point4 1 0 0 1, Point4 6 0 0 2, Point4 10 0 0 3,
                        Point4 23 0 0 4, Point4 26 0 0 5, Point4 34 0 0 6, Point4 41 0 0 7,
                        Point4 53 0 0 8, Point4 55 0 0 9],
               points2d = False, ordered = False\<rparr>"

text \<open>The kd-tree node of a point \<open>(x, 0, 0)\<close> at position \<open>i\<close>, and a triplet of error 0
  with its centre and its direction on the first axis.\<close>

definition line_node :: "real \<Rightarrow> nat \<Rightarrow> KdNode" where
  "line_node x i = \<lparr>kd_point = (x, 0, 0), kd_data = i, kd_index = i\<rparr>"

definition on_line :: "nat \<Rightarrow> nat \<Rightarrow> nat \<Rightarrow> real \<Rightarrow> real \<Rightarrow> triplet" where
  "on_line ia ib ic cx dx =
     \<lparr>point_index_a = ia, point_index_b = ib, point_index_c = ic,
      center = Point3 cx 0 0, direction = Point3 dx 0 0, error = 0\<rparr>"

section \<open>Reads outside an allocation\<close>

text \<open>
  A read of a C array outside its allocation is undefined behaviour; the model stops there
  with the offending index.  Arrays are lists whose length is the allocated length.  For the
  reads of \<open>cdists\<close> in \<open>compute_hc\<close> there is a second treatment, which goes on with the
  value found (see \<open>read_checked\<close> and \<open>read_unchecked\<close> below).
\<close>

datatype failure = OutOfBounds nat

definition fbind :: "failure + 'a \<Rightarrow> ('a \<Rightarrow> failure + 'b) \<Rightarrow> failure + 'b" where
  "fbind m f = (case m of Inl e \<Rightarrow> Inl e | Inr v \<Rightarrow> f v)"

definition read_at :: "'a list \<Rightarrow> nat \<Rightarrow> failure + 'a" where
  "read_at a i = (if i < length a then Inr (a ! i) else Inl (OutOfBounds i))"

section \<open>Characteristic length (dnn.cpp) and its use in main.cpp\<close>

text \<open>
  The quotient \<open>sum / squared_distances.size()\<close> is the one division of the modelled code
  whose divisor can be zero.  Its value is written out as IEEE-754 defines it: a finite
  number, an infinity or NaN.  The divisor is an unsigned size converted to \<open>double\<close>, so a zero
  divisor is \<open>+0\<close>.
\<close>

datatype dbl = Finite real | PosInf | NegInf | NaN

definition dbl_div :: "real \<Rightarrow> real \<Rightarrow> dbl" where
  "dbl_div u v =
     (if v \<noteq> 0 then Finite (u / v)
      else if u = 0 then NaN else if u > 0 then PosInf else NegInf)"

fun dbl_less :: "dbl \<Rightarrow> dbl \<Rightarrow> bool" where
  "dbl_less NaN _ = False"
| "dbl_less _ NaN = False"
| "dbl_less (Finite u) (Finite v) = (u < v)"
| "dbl_less NegInf NegInf = False"
| "dbl_less NegInf _ = True"
| "dbl_less _ NegInf = False"
| "dbl_less PosInf _ = False"
| "dbl_less _ PosInf = True"

fun dbl_sqrt :: "dbl \<Rightarrow> dbl" where
  "dbl_sqrt (Finite u) = (if u < 0 then NaN else Finite (sqrt u))"
| "dbl_sqrt PosInf = PosInf"
| "dbl_sqrt NegInf = NaN"
| "dbl_sqrt NaN = NaN"

text \<open>The comparison \<open>dnn == 0.0\<close>.\<close>

definition dbl_is_zero :: "dbl \<Rightarrow> bool" where
  "dbl_is_zero d = (d = Finite 0)"

text \<open>
  \<open>std::nth_element\<close> is a parameter of \<open>first_quartile\<close>.  Its contract: the result is a
  permutation of the input, and when the elements can be ordered (no NaN among them) the
  element at position \<open>n\<close> is the one a full sort would put there.
\<close>

fun insort_dbl :: "dbl \<Rightarrow> dbl list \<Rightarrow> dbl list" where
  "insort_dbl d [] = [d]"
| "insort_dbl d (e # es) = (if dbl_less e d then e # insort_dbl d es else d # e # es)"

definition sort_dbl :: "dbl list \<Rightarrow> dbl list" where
  "sort_dbl ds = foldr insort_dbl ds []"

definition std_nth_element_spec :: "(dbl list \<Rightarrow> nat \<Rightarrow> dbl list) \<Rightarrow> bool" where
  "std_nth_element_spec nth_element =
     (\<forall>ds n. mset (nth_element ds n) = mset ds \<and>
             (NaN \<notin> set ds \<and> n < length ds \<longrightarrow> nth_element ds n ! n = sort_dbl ds ! n))"

text \<open>One pass of the loop of \<open>compute_mean_square_distance\<close>; \<open>k\<close> is already incremented.
  \<open>erase(begin())\<close> on an empty vector is undefined behaviour.\<close>

definition mean_square_distance :: "KdNode list \<Rightarrow> nat \<Rightarrow> Point \<Rightarrow> failure + dbl" where
  "mean_square_distance nodes k p =
     (let squared_distances = snd (k_nearest_neighbors nodes (as_vector p) k)
      in case squared_distances of
           [] \<Rightarrow> Inl (OutOfBounds 0)
         | first # erased \<Rightarrow>
             let sum = accumulate erased
             in Inr (dbl_div sum (real (length erased))))"

fun push_msd :: "KdNode list \<Rightarrow> nat \<Rightarrow> Point list \<Rightarrow> dbl list \<Rightarrow> failure + dbl list" where
  "push_msd nodes k [] msd = Inr msd"
| "push_msd nodes k (p # ps) msd =
     fbind (mean_square_distance nodes k p) (\<lambda>m. push_msd nodes k ps (msd @ [m]))"

definition compute_mean_square_distance :: "PointCloud \<Rightarrow> dbl list \<Rightarrow> nat \<Rightarrow> failure + dbl list" where
  "compute_mean_square_distance cloud msd k =
     (let nodes = map (\<lambda>p. KdNode_of_point (as_vector p)) (points cloud)
      in push_msd nodes (k + 1) (points cloud) msd)"

definition first_quartile :: "(dbl list \<Rightarrow> nat \<Rightarrow> dbl list) \<Rightarrow> PointCloud \<Rightarrow> failure + dbl" where
  "first_quartile nth_element cloud =
     fbind (compute_mean_square_distance cloud [] 1) (\<lambda>msd.
       let q1 = length msd div 4
       in read_at (nth_element msd q1) q1)"

text \<open>main.cpp, lines 103 to 113: \<open>dnn = std::sqrt(first_quartile(cloud_xyz))\<close>, then the check
  \<open>dnn == 0.0\<close> that makes the program stop with a hint at duplicate points.  The value is
  \<open>dnn\<close> and whether the check fires.\<close>

definition main_dnn :: "(dbl list \<Rightarrow> nat \<Rightarrow> dbl list) \<Rightarrow> PointCloud \<Rightarrow> failure + dbl \<times> bool" where
  "main_dnn nth_element cloud_xyz =
     fbind (first_quartile nth_element cloud_xyz) (\<lambda>q.
       let dnn = dbl_sqrt q in Inr (dnn, dbl_is_zero dnn))"

text \<open>A cloud of one point.\<close>

definition single_cloud :: PointCloud where
  "single_cloud = \<lparr>points = [Point4 5 7 0 0], points2d = False, ordered = False\<rparr>"

section \<open>Hierarchical clustering of the triplets (cluster.h, cluster.cpp)\<close>

datatype Linkage = SINGLE | COMPLETE | AVERAGE

type_synonym cluster_t = "nat list"

type_synonym cluster_group = "cluster_t list"

text \<open>\<open>new T[n]\<close> filled by a library call: exactly \<open>n\<close> cells, holding what the call wrote
  (\<open>d\<close> stands for a cell the call left untouched).\<close>

definition c_array :: "nat \<Rightarrow> 'a \<Rightarrow> 'a list \<Rightarrow> 'a list" where
  "c_array n d written = take n written @ replicate (n - length written) d"

text \<open>Subtraction of \<open>size_t\<close> values (64 bits): it wraps around.\<close>

definition size_t_sub :: "nat \<Rightarrow> nat \<Rightarrow> nat" where
  "size_t_sub a b = (a + 2 ^ 64 - b mod 2 ^ 64) mod 2 ^ 64"

text \<open>Conversion of an \<open>int\<close> to \<open>size_t\<close>, as in \<open>result[labels[i]]\<close>.\<close>

definition size_t_of_int :: "int \<Rightarrow> nat" where
  "size_t_of_int l = nat (l mod 2 ^ 64)"

text \<open>
  The cells of \<open>cdists\<close> hold finite numbers, modelled as reals.  What the code reads from
  \<open>cdists\<close> and computes from it is a \<open>dbl\<close>, for two reasons: \<open>sd\<close> divides by \<open>m - 1.0\<close>,
  which is zero for \<open>m = 1\<close>, and a read outside the array has a value that the array does
  not determine.  On finite operands the operations are those of the reals (no rounding,
  no overflow); on the other operands they are those of IEEE-754.  The zero divisors of this
  code are \<open>m\<close> and \<open>m - 1.0\<close> with \<open>m\<close> an unsigned integer, so a zero divisor is \<open>+0\<close>.
\<close>

fun dbl_neg :: "dbl \<Rightarrow> dbl" where
  "dbl_neg (Finite u) = Finite (- u)"
| "dbl_neg PosInf = NegInf"
| "dbl_neg NegInf = PosInf"
| "dbl_neg NaN = NaN"

fun dbl_add :: "dbl \<Rightarrow> dbl \<Rightarrow> dbl" where
  "dbl_add NaN _ = NaN"
| "dbl_add _ NaN = NaN"
| "dbl_add (Finite u) (Finite v) = Finite (u + v)"
| "dbl_add PosInf NegInf = NaN"
| "dbl_add NegInf PosInf = NaN"
| "dbl_add PosInf _ = PosInf"
| "dbl_add _ PosInf = PosInf"
| "dbl_add NegInf _ = NegInf"
| "dbl_add _ NegInf = NegInf"

definition dbl_sub :: "dbl \<Rightarrow> dbl \<Rightarrow> dbl" where
  "dbl_sub a b = dbl_add a (dbl_neg b)"

text \<open>The product of an infinity and a finite number \<open>v\<close>; \<open>pos\<close> tells the sign of the
  infinity.\<close>

definition inf_times :: "bool \<Rightarrow> real \<Rightarrow> dbl" where
  "inf_times pos v =
     (if v = 0 then NaN else if (0 < v) = pos then PosInf else NegInf)"

fun dbl_mul :: "dbl \<Rightarrow> dbl \<Rightarrow> dbl" where
  "dbl_mul NaN _ = NaN"
| "dbl_mul _ NaN = NaN"
| "dbl_mul (Finite u) (Finite v) = Finite (u * v)"
| "dbl_mul (Finite u) PosInf = inf_times True u"
| "dbl_mul (Finite u) NegInf = inf_times False u"
| "dbl_mul PosInf (Finite v) = inf_times True v"
| "dbl_mul NegInf (Finite v) = inf_times False v"
| "dbl_mul PosInf PosInf = PosInf"
| "dbl_mul PosInf NegInf = NegInf"
| "dbl_mul NegInf PosInf = NegInf"
| "dbl_mul NegInf NegInf = PosInf"

fun dbl_quot :: "dbl \<Rightarrow> dbl \<Rightarrow> dbl" where
  "dbl_quot NaN _ = NaN"
| "dbl_quot _ NaN = NaN"
| "dbl_quot (Finite u) (Finite v) = dbl_div u v"
| "dbl_quot (Finite u) _ = Finite 0"
| "dbl_quot PosInf (Finite v) = (if 0 \<le> v then PosInf else NegInf)"
| "dbl_quot NegInf (Finite v) = (if 0 \<le> v then NegInf else PosInf)"
| "dbl_quot _ _ = NaN"

text \<open>\<open>a <= b\<close> on doubles: false as soon as one side is NaN.\<close>

definition dbl_le :: "dbl \<Rightarrow> dbl \<Rightarrow> bool" where
  "dbl_le a b = (dbl_less a b \<or> (a = b \<and> a \<noteq> NaN))"

text \<open>
  A read \<open>a[i]\<close> of the \<open>double\<close> array \<open>a\<close>.  Inside the array it gives the cell.  Outside it
  is undefined behaviour, and the functions below take the treatment of such a read as their
  first argument \<open>rd\<close>:
  \<^item> \<open>read_checked\<close> stops there with the offending index;
  \<^item> \<open>read_unchecked stray\<close> goes on with the \<open>double\<close> that the memory holds at that place,
    \<open>stray i\<close> for the index \<open>i\<close>, about which nothing is known (it may be an infinity or NaN).
\<close>

definition read_checked :: "real list \<Rightarrow> nat \<Rightarrow> failure + dbl" where
  "read_checked a i = (if i < length a then Inr (Finite (a ! i)) else Inl (OutOfBounds i))"

definition read_unchecked :: "(nat \<Rightarrow> dbl) \<Rightarrow> real list \<Rightarrow> nat \<Rightarrow> failure + dbl" where
  "read_unchecked stray a i = Inr (if i < length a then Finite (a ! i) else stray i)"

text \<open>The reads \<open>a[0]\<close>, ..., \<open>a[m - 1]\<close> that \<open>mean\<close> and \<open>sd\<close> make, in this order.\<close>

fun read_cells :: "(real list \<Rightarrow> nat \<Rightarrow> failure + dbl) \<Rightarrow> real list \<Rightarrow> nat \<Rightarrow> failure + dbl list" where
  "read_cells rd a 0 = Inr []"
| "read_cells rd a (Suc m) =
     fbind (read_cells rd a m) (\<lambda>cells. fbind (rd a m) (\<lambda>c. Inr (cells @ [c])))"

text \<open>\<open>mean\<close> and \<open>sd\<close> on the first \<open>m\<close> cells of \<open>a\<close>, already read.  For \<open>m = 1\<close> the
  factor \<open>1.0 / (m - 1.0)\<close> of \<open>sd\<close> is \<open>1.0 / 0.0\<close>, an infinity.\<close>

definition mean :: "dbl list \<Rightarrow> nat \<Rightarrow> dbl" where
  "mean a m = dbl_quot (foldl dbl_add (Finite 0) (take m a)) (Finite (real m))"

definition sd :: "dbl list \<Rightarrow> nat \<Rightarrow> dbl" where
  "sd a m =
     (let mean_val = mean a m;
          sum = foldl (\<lambda>acc v. let tmp = dbl_sub mean_val v in dbl_add acc (dbl_mul tmp tmp))
                      (Finite 0) (take m a);
          result = dbl_mul (dbl_quot (Finite 1) (dbl_sub (Finite (real m)) (Finite 1))) sum
      in dbl_sqrt result)"

definition calculate_distance_matrix ::
    "triplet list \<Rightarrow> (triplet \<Rightarrow> triplet \<Rightarrow> real) \<Rightarrow> real list" where
  "calculate_distance_matrix triplets triplet_metric =
     concat (map (\<lambda>i. map (\<lambda>j. triplet_metric (triplets ! i) (triplets ! j))
                         [i + 1 ..< length triplets])
                 [0 ..< length triplets])"

text \<open>
  The condition under which the automatic scan breaks at \<open>k\<close>:
  \<open>(cdists[k - 1] > 0.0 || cdists[k] > 1.0e-8) && (cdists[k] > cdists[k - 1] + 2 * sd(cdists, k + 1))\<close>,
  with the reads in the order in which \<open>||\<close> and \<open>&&\<close> make them.
\<close>

definition auto_break :: "(real list \<Rightarrow> nat \<Rightarrow> failure + dbl) \<Rightarrow> real list \<Rightarrow> nat \<Rightarrow> failure + bool" where
  "auto_break rd cdists k =
     fbind (rd cdists (size_t_sub k 1)) (\<lambda>prev.
     fbind (if dbl_less (Finite 0) prev then Inr True
            else fbind (rd cdists k) (\<lambda>cur. Inr (dbl_less (Finite (1 / 10 ^ 8)) cur))) (\<lambda>left.
     if \<not> left then Inr False
     else fbind (rd cdists k) (\<lambda>cur.
          fbind (rd cdists (size_t_sub k 1)) (\<lambda>prev2.
          fbind (read_cells rd cdists (k + 1)) (\<lambda>cells.
          Inr (dbl_less (dbl_add prev2 (dbl_mul (Finite 2) (sd cells (k + 1)))) cur))))))"

text \<open>\<open>for (k = (triplet_size - 1) / 2; k < (triplet_size - 1); ++k) { if (...) break; }\<close>;
  the value is the \<open>k\<close> with which the loop is left.\<close>

function auto_scan :: "(real list \<Rightarrow> nat \<Rightarrow> failure + dbl) \<Rightarrow> nat \<Rightarrow> real list \<Rightarrow> nat \<Rightarrow> failure + nat" where
  "auto_scan rd triplet_size cdists k =
     (if k < size_t_sub triplet_size 1
      then (case auto_break rd cdists k of
              Inl e \<Rightarrow> Inl e
            | Inr True \<Rightarrow> Inr k
            | Inr False \<Rightarrow> auto_scan rd triplet_size cdists (k + 1))
      else Inr k)"
  by pat_completeness auto
termination
  by (relation "measure (\<lambda>(rd, triplet_size, cdists, k). size_t_sub triplet_size 1 - k)") auto

declare auto_scan.simps [simp del]

text \<open>\<open>for (k = 0; k < (triplet_size - 1); ++k) { if (cdists[k] >= t) break; }\<close>\<close>

function fixed_scan ::
    "(real list \<Rightarrow> nat \<Rightarrow> failure + dbl) \<Rightarrow> nat \<Rightarrow> real list \<Rightarrow> real \<Rightarrow> nat \<Rightarrow> failure + nat" where
  "fixed_scan rd triplet_size cdists t k =
     (if k < size_t_sub triplet_size 1
      then (case rd cdists k of
              Inl e \<Rightarrow> Inl e
            | Inr d \<Rightarrow> if dbl_le (Finite t) d then Inr k
                       else fixed_scan rd triplet_size cdists t (k + 1))
      else Inr k)"
  by pat_completeness auto
termination
  by (relation "measure (\<lambda>(rd, triplet_size, cdists, t, k). size_t_sub triplet_size 1 - k)") auto

declare fixed_scan.simps [simp del]

text \<open>The reads of the block \<open>if (opt_verbose) { ... }\<close> of the automatic branch, which
  prints \<open>automatic_t\<close>; the printed text is not modelled.\<close>

definition verbose_reads ::
    "(real list \<Rightarrow> nat \<Rightarrow> failure + dbl) \<Rightarrow> nat \<Rightarrow> real list \<Rightarrow> nat \<Rightarrow> failure + dbl" where
  "verbose_reads rd triplet_size cdists k =
     fbind (if k > 0 then rd cdists (size_t_sub k 1) else Inr (Finite 0)) (\<lambda>prev_cdist.
     if k < size_t_sub triplet_size 1
     then fbind (rd cdists k) (\<lambda>cur. Inr (dbl_quot (dbl_add prev_cdist cur) (Finite 2)))
     else rd cdists (size_t_sub k 1))"

text \<open>\<open>for (i = 0; i < triplet_size; ++i) result[labels[i]].push_back(i);\<close>  An index
  outside \<open>labels\<close> or \<open>result\<close> stops the model: the element found there would be written to.\<close>

fun fill_clusters :: "int list \<Rightarrow> nat list \<Rightarrow> cluster_group \<Rightarrow> failure + cluster_group" where
  "fill_clusters labels [] result = Inr result"
| "fill_clusters labels (i # is) result =
     fbind (read_at labels i) (\<lambda>l.
     fbind (read_at result (size_t_of_int l)) (\<lambda>cl.
     fill_clusters labels is (result[size_t_of_int l := cl @ [i]])))"

text \<open>
  \<open>compute_hc\<close>.  The two calls into the clustering library, \<open>hclust_fast\<close> (which fills
  \<open>merge\<close> and \<open>cdists\<close>) and \<open>cutree_k\<close> (which fills \<open>labels\<close>), are parameters of the model:
  the library is not part of the sources at hand.  The parameters \<open>dmax\<close> and \<open>is_dmax\<close> of the
  source are not used by it, and the debug file of \<open>opt_verbose > 1\<close> is not modelled.  The
  first argument \<open>rd\<close> is the treatment of the reads of \<open>cdists\<close>.
\<close>

definition compute_hc ::
    "(real list \<Rightarrow> nat \<Rightarrow> failure + dbl) \<Rightarrow>
     (nat \<Rightarrow> real list \<Rightarrow> Linkage \<Rightarrow> int list \<times> real list) \<Rightarrow>
     (nat \<Rightarrow> int list \<Rightarrow> nat \<Rightarrow> int list) \<Rightarrow>
     PointCloud \<Rightarrow> cluster_group \<Rightarrow> triplet list \<Rightarrow> real \<Rightarrow> real \<Rightarrow> bool \<Rightarrow> Linkage \<Rightarrow> nat \<Rightarrow>
     failure + cluster_group" where
  "compute_hc rd hclust_fast cutree_k cloud result triplets s t tauto method opt_verbose =
     (let triplet_size = length triplets in
      if triplet_size = 0 then Inr result
      else
        let distance_matrix = calculate_distance_matrix triplets (ScaleTripletMetric s);
            written = hclust_fast triplet_size distance_matrix method;
            merge = c_array (2 * (triplet_size - 1)) 0 (fst written);
            cdists = c_array (triplet_size - 1) 0 (snd written)
        in fbind (if tauto
                  then fbind (auto_scan rd triplet_size cdists ((triplet_size - 1) div 2)) (\<lambda>k.
                       if opt_verbose \<noteq> 0
                       then fbind (verbose_reads rd triplet_size cdists k) (\<lambda>automatic_t. Inr k)
                       else Inr k)
                  else fixed_scan rd triplet_size cdists t 0) (\<lambda>k.
           let cluster_size = triplet_size - k;
               labels = c_array triplet_size 0 (cutree_k triplet_size merge cluster_size)
           in fill_clusters labels [0 ..< triplet_size] (result @ replicate cluster_size [])))"

text \<open>
  The words of the specification for the automatic cut: the sample standard deviation, and
  the condition on \<open>k\<close> at which the scan stops.  At \<open>k = 0\<close> there is neither a cell
  \<open>cdists[k - 1]\<close> nor a sample standard deviation of the single value \<open>cdists[0]\<close>, so the
  condition is not met there.  The contract of \<open>cutree_k\<close>: a label in
  \<open>[0, nclust)\<close> for each of the \<open>n\<close> observations.
\<close>

definition sample_sd :: "real list \<Rightarrow> real" where
  "sample_sd xs =
     sqrt ((\<Sum>x\<leftarrow>xs. (x - sum_list xs / real (length xs))\<^sup>2) / (real (length xs) - 1))"

definition cut_rule :: "real list \<Rightarrow> nat \<Rightarrow> bool" where
  "cut_rule cdists k =
     (1 \<le> k \<and>
      (cdists ! (k - 1) > 0 \<or> cdists ! k > 1 / 10 ^ 8) \<and>
      cdists ! k > cdists ! (k - 1) + 2 * sample_sd (take (k + 1) cdists))"

definition cutree_k_spec :: "(nat \<Rightarrow> int list \<Rightarrow> nat \<Rightarrow> int list) \<Rightarrow> bool" where
  "cutree_k_spec cutree_k =
     (\<forall>n merge nclust. 1 \<le> nclust \<and> nclust \<le> n \<longrightarrow>
        length (cutree_k n merge nclust) = n \<and>
        (\<forall>l \<in> set (cutree_k n merge nclust). 0 \<le> l \<and> l < int nclust))"

text \<open>A function that meets the contract of \<open>cutree_k\<close>: observation \<open>i\<close> gets the label
  \<open>min i (nclust - 1)\<close>, so that every requested cluster has a member.\<close>

definition sample_cutree_k :: "nat \<Rightarrow> int list \<Rightarrow> nat \<Rightarrow> int list" where
  "sample_cutree_k n merge nclust = map (\<lambda>i. int (min i (nclust - 1))) [0 ..< n]"

text \<open>Removal of the clusters with fewer than \<open>m\<close> members.\<close>

definition cleanup_cluster_group :: "cluster_group \<Rightarrow> nat \<Rightarrow> cluster_group" where
  "cleanup_cluster_group cl_group m = filter (\<lambda>c. \<not> length c < m) cl_group"

section \<open>Splitting clusters at gaps (graph.h, graph.cpp)\<close>

record Edge =
  src :: nat
  dest :: nat
  weight :: real

text \<open>\<open>operator<\<close> of \<open>struct Edge\<close>.\<close>

definition edge_less :: "Edge \<Rightarrow> Edge \<Rightarrow> bool" where
  "edge_less e1 e2 = (weight e1 < weight e2)"

text \<open>\<open>create_edges\<close>: one edge for every pair \<open>vertex1 < vertex2\<close> of positions of \<open>cluster\<close>,
  weighted with the squared distance of the two points, then sorted.\<close>

definition create_edges :: "(Edge list \<Rightarrow> Edge list) \<Rightarrow> PointCloud \<Rightarrow> nat list \<Rightarrow> Edge list" where
  "create_edges std_sort cloud cluster =
     std_sort (concat (map (\<lambda>vertex1. map (\<lambda>vertex2.
        let point_index1 = cluster ! vertex1; point_index2 = cluster ! vertex2;
            p = points cloud ! point_index1; q = points cloud ! point_index2;
            distance = squared_norm (p_sub q p)
        in \<lparr>src = vertex1, dest = vertex2, weight = distance\<rparr>)
          [vertex1 + 1 ..< length cluster]) [0 ..< length cluster]))"

text \<open>\<open>create_adj\<close>\<close>

definition adj_push :: "nat list list \<Rightarrow> Edge \<Rightarrow> nat list list" where
  "adj_push adj edge =
     (let adj1 = adj[src edge := adj ! src edge @ [dest edge]]
      in adj1[dest edge := adj1 ! dest edge @ [src edge]])"

definition create_adj :: "nat list list \<Rightarrow> Edge list \<Rightarrow> nat list list" where
  "create_adj adj edges = foldl adj_push adj edges"

text \<open>\<open>remove_edge\<close>: erases the edges with \<open>weight > dmax * dmax\<close>.\<close>

definition remove_edge :: "Edge list \<Rightarrow> real \<Rightarrow> Edge list" where
  "remove_edge edges dmax = (let dmax2 = dmax * dmax in filter (\<lambda>edge. \<not> weight edge > dmax2) edges)"

text \<open>\<open>mst\<close>: Kruskal's algorithm on the sorted edges, with the group of every vertex in
  \<open>groups\<close>.\<close>

definition mst_step :: "nat list \<times> Edge list \<Rightarrow> Edge \<Rightarrow> nat list \<times> Edge list" where
  "mst_step st e =
     (let groups = fst st; mst_edges = snd st;
          group_a = groups ! src e; group_b = groups ! dest e
      in if group_a \<noteq> group_b
         then (map (\<lambda>g. if g = group_b then group_a else g) groups, mst_edges @ [e])
         else (groups, mst_edges))"

definition mst :: "Edge list \<Rightarrow> Edge list \<Rightarrow> nat \<Rightarrow> Edge list" where
  "mst edges mst_edges vcount = snd (foldl mst_step ([0 ..< vcount], mst_edges) edges)"

text \<open>
  \<open>dfs_util\<close>.  The stack is a list with its top at the head; pushing the unvisited
  neighbours of \<open>v\<close> in the order of \<open>adj[v]\<close> leaves the last of them on top.  A vertex outside
  \<open>visited\<close>, \<open>cluster\<close> or \<open>adj\<close> is a read outside the allocation.
\<close>

function dfs_loop ::
    "nat list \<Rightarrow> nat list list \<Rightarrow> nat list \<Rightarrow> bool list \<Rightarrow> nat list \<Rightarrow> failure + nat list \<times> bool list" where
  "dfs_loop cluster adj [] visited new_cluster = Inr (new_cluster, visited)"
| "dfs_loop cluster adj (v # stack) visited new_cluster =
     (if v < length visited \<and> v < length cluster \<and> v < length adj
      then (case find (\<lambda>w. \<not> w < length visited) (adj ! v) of
              Some w \<Rightarrow> Inl (OutOfBounds w)
            | None \<Rightarrow>
                let visited1 = visited[v := True];
                    pushed = rev (filter (\<lambda>w. \<not> visited1 ! w) (adj ! v))
                in dfs_loop cluster adj (pushed @ stack) visited1 (new_cluster @ [cluster ! v]))
      else Inl (OutOfBounds v))"
  by pat_completeness auto

lemma count_unvisited_update:
  "v < length visited \<Longrightarrow> \<not> visited ! v \<Longrightarrow>
     length (filter Not (visited[v := True])) < length (filter Not visited)"
proof (induction visited arbitrary: v)
  case Nil
  then show ?case by simp
next
  case (Cons b bs)
  show ?case
  proof (cases v)
    case 0
    then show ?thesis using Cons.prems by simp
  next
    case (Suc k)
    then show ?thesis using Cons.prems Cons.IH [of k] by simp
  qed
qed

lemma dfs_measure_step:
  assumes "v < length visited"
  shows "((length (filter Not (visited[v := True])),
           length (filter (\<lambda>w. visited[v := True] ! w)
                     (rev (filter (\<lambda>w. \<not> visited[v := True] ! w) ns) @ stack))),
          (length (filter Not visited), length (filter (\<lambda>w. visited ! w) (v # stack))))
         \<in> less_than <*lex*> less_than"
proof (cases "visited ! v")
  case True
  have "visited[v := True] = visited" using True by (metis list_update_id)
  then show ?thesis using True by simp
next
  case False
  then show ?thesis using assms by (simp add: count_unvisited_update)
qed

termination dfs_loop
  apply (relation "inv_image (less_than <*lex*> less_than)
        (\<lambda>(cluster, adj, stack, visited, new_cluster).
           (length (filter Not visited), length (filter (\<lambda>w. visited ! w) stack)))")
   apply (intro wf_inv_image wf_lex_prod wf_less_than)
  subgoal premises prems for cluster adj v stack visited new_cluster x xa
    using prems dfs_measure_step [of v visited "adj ! v" stack] by simp
  done

declare dfs_loop.simps [simp del]

definition dfs_util ::
    "nat list \<Rightarrow> nat \<Rightarrow> bool list \<Rightarrow> nat list \<Rightarrow> nat list list \<Rightarrow> failure + nat list \<times> bool list" where
  "dfs_util new_cluster vertex visited cluster adj = dfs_loop cluster adj [vertex] visited new_cluster"

text \<open>The loop \<open>for (size_t v = 0; v < vcount; ++v)\<close> of \<open>max_step\<close>, on the vertices still to
  come.\<close>

fun components_loop ::
    "nat list \<Rightarrow> nat list list \<Rightarrow> nat \<Rightarrow> nat \<Rightarrow> nat list \<Rightarrow> bool list \<Rightarrow> nat list list \<Rightarrow>
     failure + nat list list" where
  "components_loop cluster adj min_size n_removed [] visited new_clusters = Inr new_clusters"
| "components_loop cluster adj min_size n_removed (v # vs) visited new_clusters =
     (if \<not> visited ! v
      then fbind (dfs_util [] v visited cluster adj) (\<lambda>found.
             let new_cluster = fst found; visited1 = snd found
             in components_loop cluster adj min_size n_removed vs visited1
                  (if length new_cluster \<ge> min_size \<or> n_removed = 0
                   then new_clusters @ [new_cluster] else new_clusters))
      else components_loop cluster adj min_size n_removed vs visited new_clusters)"

definition max_step ::
    "(Edge list \<Rightarrow> Edge list) \<Rightarrow> nat list list \<Rightarrow> nat list \<Rightarrow> PointCloud \<Rightarrow> real \<Rightarrow> nat \<Rightarrow>
     failure + nat list list" where
  "max_step std_sort new_clusters cluster cloud dmax min_size =
     (let vcount = length cluster;
          adj0 = replicate vcount [];
          visited = replicate vcount False;
          edges = create_edges std_sort cloud cluster;
          mst_edges = mst edges [] vcount;
          n_removed0 = length mst_edges;
          pruned = remove_edge mst_edges dmax;
          n_removed = n_removed0 - length pruned;
          adj = create_adj adj0 pruned
      in components_loop cluster adj min_size n_removed [0 ..< vcount] visited new_clusters)"

text \<open>
  The words of the specification for the gap split: the vertices adjacent through an edge
  list, the connected component of a vertex among the vertices \<open>0, \<dots>, n - 1\<close>, and the edges
  that \<open>remove_edge\<close> deletes.
\<close>

definition adjacent :: "Edge list \<Rightarrow> (nat \<times> nat) set" where
  "adjacent es = (\<lambda>e. (src e, dest e)) ` set es \<union> (\<lambda>e. (dest e, src e)) ` set es"

definition component :: "Edge list \<Rightarrow> nat \<Rightarrow> nat \<Rightarrow> nat set" where
  "component es n v = {w. w < n \<and> (v, w) \<in> (adjacent es)\<^sup>*}"

definition deleted_edges :: "Edge list \<Rightarrow> real \<Rightarrow> Edge list" where
  "deleted_edges es dmax = filter (\<lambda>e. weight e > dmax * dmax) es"

subsection \<open>Notions used to state and prove the properties of the gap split\<close>

text \<open>Every edge of the list joins two vertices that the edges before it do not connect.\<close>

definition forest_list :: "Edge list \<Rightarrow> bool" where
  "forest_list es = (\<forall>pre e post. es = pre @ e # post \<longrightarrow> (src e, dest e) \<notin> (adjacent pre)\<^sup>*)"

definition groups_inv :: "nat \<Rightarrow> nat list \<Rightarrow> Edge list \<Rightarrow> bool" where
  "groups_inv n groups acc =
     (length groups = n \<and> forest_list acc \<and>
      (\<forall>a<n. \<forall>b<n. (groups ! a = groups ! b) = ((a, b) \<in> (adjacent acc)\<^sup>*)))"

definition nbrs :: "Edge list \<Rightarrow> nat \<Rightarrow> nat list" where
  "nbrs es v =
     concat (map (\<lambda>e. (if src e = v then [dest e] else []) @ (if dest e = v then [src e] else [])) es)"

definition graph_ok :: "nat \<Rightarrow> nat list list \<Rightarrow> Edge list \<Rightarrow> bool" where
  "graph_ok n adj es =
     (length adj = n \<and> forest_list es \<and> (\<forall>e \<in> set es. src e < n \<and> dest e < n) \<and>
      (\<forall>v<n. adj ! v = nbrs es v))"

definition dfs_inv :: "nat \<Rightarrow> Edge list \<Rightarrow> nat \<Rightarrow> nat set \<Rightarrow> nat list \<Rightarrow> bool list \<Rightarrow> nat list \<Rightarrow> bool" where
  "dfs_inv n es s V0 stack visited as =
     (length visited = n \<and>
      {v. v < n \<and> visited ! v} = V0 \<union> set as \<and>
      V0 \<inter> set as = {} \<and> distinct as \<and>
      distinct stack \<and> (\<forall>w \<in> set stack. w < n) \<and> set stack \<inter> (V0 \<union> set as) = {} \<and>
      (if as = [] then stack = [s]
       else s \<in> set as \<and> (\<forall>w \<in> set stack. \<exists>u \<in> set as. (u, w) \<in> adjacent es)) \<and>
      (\<forall>x \<in> set as. (s, x) \<in> (adjacent es \<inter> set as \<times> set as)\<^sup>*) \<and>
      (\<forall>u \<in> set as. \<forall>w. (u, w) \<in> adjacent es \<longrightarrow> w \<in> set as \<union> set stack))"

definition all_pairs :: "PointCloud \<Rightarrow> nat list \<Rightarrow> Edge list" where
  "all_pairs cloud cluster =
     concat (map (\<lambda>vertex1. map (\<lambda>vertex2.
        \<lparr>src = vertex1, dest = vertex2,
         weight = squared_norm (p_sub (points cloud ! (cluster ! vertex2)) (points cloud ! (cluster ! vertex1)))\<rparr>)
          [vertex1 + 1 ..< length cluster]) [0 ..< length cluster])"

definition max_step_mst :: "(Edge list \<Rightarrow> Edge list) \<Rightarrow> PointCloud \<Rightarrow> nat list \<Rightarrow> Edge list" where
  "max_step_mst std_sort cloud cluster = mst (create_edges std_sort cloud cluster) [] (length cluster)"

definition gap_cloud :: PointCloud where
  "gap_cloud = \<lparr>points = [Point4 0 0 0 0, Point4 1 0 0 1, Point4 5 0 0 2, Point4 6 0 0 3],
                 points2d = False, ordered = False\<rparr>"

definition spanning_tree :: "nat \<Rightarrow> Edge list \<Rightarrow> Edge list \<Rightarrow> bool" where
  "spanning_tree n es t =
     (distinct t \<and> set t \<subseteq> set es \<and>
      (\<forall>u<n. \<forall>w<n. (u, w) \<in> (adjacent t)\<^sup>*) \<and>
      (\<forall>e \<in> set t. (src e, dest e) \<notin> (adjacent (filter (\<lambda>x. x \<noteq> e) t))\<^sup>*))"

definition total_weight :: "Edge list \<Rightarrow> real" where
  "total_weight es = sum_list (map weight es)"

definition minimum_spanning_tree :: "nat \<Rightarrow> Edge list \<Rightarrow> Edge list \<Rightarrow> bool" where
  "minimum_spanning_tree n es t =
     (spanning_tree n es t \<and> (\<forall>t'. spanning_tree n es t' \<longrightarrow> total_weight t \<le> total_weight t'))"

section \<open>Properties of the triplet metric\<close>

lemma anglecos_commute: "anglecos lhs rhs = anglecos rhs lhs"
  by (simp add: anglecos_def p_dot_def mult.commute)

lemma perpendicularDistance_swap:
  "perpendicularDistanceA lhs rhs = perpendicularDistanceB rhs lhs"
  by (simp add: perpendicularDistanceA_def perpendicularDistanceB_def)

lemma squared_norm_nonneg: "0 \<le> squared_norm p"
  by (simp add: squared_norm_def)

lemma anglecos_tr_origin_far: "anglecos tr_origin tr_far = 1"
  by (simp add: anglecos_def p_dot_def tr_origin_def tr_far_def Point3_def)

lemma anglecos_tr_origin_up: "anglecos tr_origin tr_up = 0"
  by (simp add: anglecos_def p_dot_def tr_origin_def tr_up_def Point3_def)

lemma perpA_tr_origin_far: "perpendicularDistanceA tr_origin tr_far = 10 ^ 16"
  by (simp add: perpendicularDistanceA_def squared_norm_def p_add_def p_sub_def p_scale_def
      p_dot_def tr_origin_def tr_far_def Point3_def)

lemma perpB_tr_origin_far: "perpendicularDistanceB tr_origin tr_far = 10 ^ 16"
  by (simp add: perpendicularDistanceB_def squared_norm_def p_add_def p_sub_def p_scale_def
      p_dot_def tr_origin_def tr_far_def Point3_def)

lemma sqrt_ten_16: "sqrt (10 ^ 16) = (10 ^ 8 :: real)"
proof -
  have "(10 ^ 16 :: real) = (10 ^ 8)\<^sup>2" by simp
  then show ?thesis by (simp only: real_sqrt_abs) simp
qed

lemma metric_tr_origin_far: "ScaleTripletMetric 1 tr_origin tr_far = 10 ^ 8"
  by (simp add: ScaleTripletMetric_def anglecos_tr_origin_far perpA_tr_origin_far
      perpB_tr_origin_far sqrt_ten_16)

text \<open>
  C5, as stated: the metric returns \<open>10\<^sup>8\<close> if and only if the absolute value of the clamped
  cosine is below \<open>10\<^sup>-\<^sup>8\<close>.  The "only if" half fails: for the two parallel triplets
  \<open>tr_origin\<close> and \<open>tr_far\<close> (cosine 1) and scale 1 the regular branch itself evaluates to
  \<open>sqrt (10\<^sup>1\<^sup>6) / 1 + |tan 0| = 10\<^sup>8\<close>.
\<close>

theorem C5_sentinel_iff_counterexample:
  "\<not> (ScaleTripletMetric 1 tr_origin tr_far = 10 ^ 8
       \<longleftrightarrow> \<bar>anglecos tr_origin tr_far\<bar> < 1 / 10 ^ 8)"
  by (simp add: metric_tr_origin_far anglecos_tr_origin_far)

text \<open>
  C5, amended: when the absolute value of the clamped cosine is below \<open>10\<^sup>-\<^sup>8\<close> the metric
  returns the value \<open>10\<^sup>8\<close> (an ordinary result, no error); otherwise it returns
  \<open>sqrt (max \<rho>LR \<rho>RL) / s + |tan \<theta>|\<close> with \<open>\<theta> = arccos\<close> of the clamped cosine, a value that
  may itself be \<open>10\<^sup>8\<close>.
\<close>

theorem C5_metric_branches:
  "(\<bar>anglecos lhs rhs\<bar> < 1 / 10 ^ 8 \<longrightarrow> ScaleTripletMetric s lhs rhs = 10 ^ 8) \<and>
   (\<not> \<bar>anglecos lhs rhs\<bar> < 1 / 10 ^ 8 \<longrightarrow>
      ScaleTripletMetric s lhs rhs =
        sqrt (max (perpendicularDistanceA lhs rhs) (perpendicularDistanceB lhs rhs)) / s
        + \<bar>tan (arccos (anglecos lhs rhs))\<bar>) \<and>
   - 1 \<le> anglecos lhs rhs \<and> anglecos lhs rhs \<le> 1"
  by (simp add: ScaleTripletMetric_def anglecos_def Let_def)

theorem C5_metric_branches_witness:
  "\<bar>anglecos tr_origin tr_up\<bar> < 1 / 10 ^ 8 \<and> ScaleTripletMetric 1 tr_origin tr_up = 10 ^ 8 \<and>
   \<not> \<bar>anglecos tr_origin tr_far\<bar> < 1 / 10 ^ 8 \<and>
   ScaleTripletMetric 1 tr_origin tr_far =
     sqrt (max (perpendicularDistanceA tr_origin tr_far) (perpendicularDistanceB tr_origin tr_far)) / 1
     + \<bar>tan (arccos (anglecos tr_origin tr_far))\<bar>"
  using C5_metric_branches [of tr_origin tr_up 1] C5_metric_branches [of tr_origin tr_far 1]
  by (simp add: anglecos_tr_origin_up anglecos_tr_origin_far)

text \<open>
  C8: for every pair of triplets and every scale \<open>s > 0\<close> the dissimilarity is symmetric and
  non-negative.
\<close>

theorem C8_metric_symmetric_nonneg:
  assumes "0 < s"
  shows "ScaleTripletMetric s lhs rhs = ScaleTripletMetric s rhs lhs \<and>
         0 \<le> ScaleTripletMetric s lhs rhs"
proof
  show "ScaleTripletMetric s lhs rhs = ScaleTripletMetric s rhs lhs"
    by (simp add: ScaleTripletMetric_def anglecos_commute [of lhs rhs]
        perpendicularDistance_swap [of lhs rhs] perpendicularDistance_swap [of rhs lhs]
        max.commute)
  have "0 \<le> perpendicularDistanceA lhs rhs"
    by (simp add: perpendicularDistanceA_def squared_norm_nonneg)
  then have "0 \<le> max (perpendicularDistanceA lhs rhs) (perpendicularDistanceB lhs rhs)"
    by (simp add: max_def)
  then have "0 \<le> sqrt (max (perpendicularDistanceA lhs rhs) (perpendicularDistanceB lhs rhs)) / s"
    using assms by simp
  then show "0 \<le> ScaleTripletMetric s lhs rhs"
    by (simp add: ScaleTripletMetric_def)
qed

theorem C8_metric_symmetric_nonneg_witness:
  "(0::real) < 1 \<and> ScaleTripletMetric 1 tr_origin tr_far = ScaleTripletMetric 1 tr_far tr_origin \<and>
   ScaleTripletMetric 1 tr_far tr_origin = 10 ^ 8 \<and> 0 \<le> ScaleTripletMetric 1 tr_origin tr_far"
  using C8_metric_symmetric_nonneg [of 1 tr_origin tr_far]
  by (simp add: metric_tr_origin_far)

section \<open>The dendrogram cut of compute_hc\<close>

lemma size_t_sub_one: "1 \<le> k \<Longrightarrow> k < 2 ^ 64 \<Longrightarrow> size_t_sub k 1 = k - 1"
proof -
  assume a: "1 \<le> k" "k < 2 ^ 64"
  have "k + 2 ^ 64 - 1 = (k - 1) + 2 ^ 64" using a by simp
  then have "(k + 2 ^ 64 - 1) mod 2 ^ 64 = (k - 1) mod 2 ^ 64" by (simp only: mod_add_self2)
  also have "\<dots> = k - 1" using a by simp
  finally show ?thesis by (simp add: size_t_sub_def)
qed

lemma size_t_sub_zero_one: "size_t_sub 0 1 = 2 ^ 64 - 1"
  by (simp add: size_t_sub_def)

subsection \<open>The standard deviation of sd\<close>

lemma foldl_dbl_add_Finite:
  "foldl dbl_add (Finite a) (map Finite xs) = Finite (a + sum_list xs)"
  by (induction xs arbitrary: a) simp_all

lemma mean_Finite:
  assumes "xs \<noteq> []"
  shows "mean (map Finite xs) (length xs) = Finite (sum_list xs / real (length xs))"
  using assms foldl_dbl_add_Finite [of 0 xs] by (simp add: mean_def dbl_div_def)

lemma foldl_squares_Finite:
  "foldl (\<lambda>acc v. let tmp = dbl_sub (Finite mu) v in dbl_add acc (dbl_mul tmp tmp))
         (Finite a) (map Finite xs)
     = Finite (a + (\<Sum>x\<leftarrow>xs. (x - mu)\<^sup>2))"
proof (induction xs arbitrary: a)
  case Nil
  show ?case by simp
next
  case (Cons x xs)
  have "(mu - x) * (mu - x) = (x - mu)\<^sup>2" by (simp add: power2_eq_square algebra_simps)
  then show ?case using Cons.IH [of "a + (x - mu)\<^sup>2"] by (simp add: dbl_sub_def Let_def)
qed

text \<open>On two and more finite cells \<open>sd\<close> is the sample standard deviation.\<close>

lemma sd_sample_sd:
  assumes "2 \<le> length xs"
  shows "sd (map Finite xs) (length xs) = Finite (sample_sd xs)"
proof -
  let ?n = "real (length xs)"
  let ?S = "\<Sum>x\<leftarrow>xs. (x - sum_list xs / ?n)\<^sup>2"
  have ne: "xs \<noteq> []" using assms by auto
  have n1: "?n - 1 \<noteq> 0" "0 < ?n - 1" using assms by simp_all
  have S: "0 \<le> ?S" by (rule sum_list_nonneg) auto
  have q: "dbl_quot (Finite 1) (dbl_sub (Finite ?n) (Finite 1)) = Finite (1 / (?n - 1))"
    using n1 by (simp add: dbl_sub_def dbl_div_def)
  have nonneg: "\<not> 1 / (?n - 1) * ?S < 0" using S n1(2) by (simp add: not_less)
  have "sd (map Finite xs) (length xs) = dbl_sqrt (Finite (1 / (?n - 1) * ?S))"
    unfolding sd_def Let_def mean_Finite [OF ne]
    using foldl_squares_Finite [of "sum_list xs / ?n" 0 xs, unfolded Let_def] q by simp
  also have "\<dots> = Finite (sqrt (1 / (?n - 1) * ?S))" using nonneg by simp
  also have "1 / (?n - 1) * ?S = ?S / (?n - 1)" by simp
  finally show ?thesis by (simp add: sample_sd_def)
qed

text \<open>On one finite cell \<open>sd\<close> is \<open>sqrt ((1.0 / 0.0) * 0)\<close>, which is NaN.\<close>

lemma sd_one: "sd [Finite x] 1 = NaN"
  by (simp add: sd_def mean_def Let_def dbl_sub_def dbl_div_def inf_times_def)

subsection \<open>The reads of the automatic scan\<close>

lemma read_checked_inside: "i < length a \<Longrightarrow> read_checked a i = Inr (Finite (a ! i))"
  by (simp add: read_checked_def)

lemma read_unchecked_inside: "i < length a \<Longrightarrow> read_unchecked stray a i = Inr (Finite (a ! i))"
  by (simp add: read_unchecked_def)

lemma read_cells_inside:
  assumes "\<And>i. i < length a \<Longrightarrow> rd a i = Inr (Finite (a ! i))" and "m \<le> length a"
  shows "read_cells rd a m = Inr (map Finite (take m a))"
  using assms(2)
proof (induction m)
  case 0
  show ?case by simp
next
  case (Suc m)
  then have "m < length a" by simp
  then show ?case using Suc assms(1) [of m] by (simp add: fbind_def take_Suc_conv_app_nth)
qed

text \<open>Where \<open>k - 1\<close> and \<open>k\<close> are inside the array, the guard of the scan is the cut rule,
  whatever the treatment of the reads outside.\<close>

lemma auto_break_inside:
  assumes rd: "\<And>i. i < length cdists \<Longrightarrow> rd cdists i = Inr (Finite (cdists ! i))"
    and k: "1 \<le> k" "k < length cdists" "length cdists < 2 ^ 64"
  shows "auto_break rd cdists k = Inr (cut_rule cdists k)"
proof -
  have s: "size_t_sub k 1 = k - 1" using k size_t_sub_one [of k] by simp
  have r1: "rd cdists (k - 1) = Inr (Finite (cdists ! (k - 1)))" using k by (intro rd) simp
  have r2: "rd cdists k = Inr (Finite (cdists ! k))" using k by (intro rd) simp
  have r3: "read_cells rd cdists (k + 1) = Inr (map Finite (take (k + 1) cdists))"
    using k by (intro read_cells_inside rd) simp_all
  have l: "length (take (k + 1) cdists) = k + 1" using k by simp
  have "2 \<le> length (take (k + 1) cdists)" using k l by simp
  then have sdv: "sd (map Finite (take (k + 1) cdists)) (k + 1) = Finite (sample_sd (take (k + 1) cdists))"
    using sd_sample_sd [of "take (k + 1) cdists"] unfolding l by simp
  show ?thesis
    unfolding auto_break_def s r1 r2 r3 fbind_def cut_rule_def
    using k(1) by (simp only: sum.case sdv) auto
qed

lemma auto_break_zero:
  assumes "length cdists < 2 ^ 64"
  shows "auto_break read_checked cdists 0 = Inl (OutOfBounds (2 ^ 64 - 1))"
proof -
  have "read_checked cdists (2 ^ 64 - 1) = Inl (OutOfBounds (2 ^ 64 - 1))"
    using assms by (simp add: read_checked_def)
  then show ?thesis
    unfolding auto_break_def size_t_sub_zero_one fbind_def by simp
qed

lemma dbl_less_NaN_right [simp]: "dbl_less d NaN = False"
  by (cases d) simp_all

lemma dbl_add_NaN_right [simp]: "dbl_add d NaN = NaN"
  by (cases d) simp_all

text \<open>
  At \<open>k = 0\<close> with one cell and more, the read of \<open>cdists[k - 1]\<close> is outside the array.
  Whatever it yields, the guard is false: \<open>sd(cdists, 1)\<close> is NaN, and no number is greater
  than a sum with NaN.
\<close>

lemma auto_break_zero_unchecked:
  assumes "0 < length cdists"
  shows "auto_break (read_unchecked stray) cdists 0 = Inr False"
proof -
  define p where "p = (if size_t_sub 0 1 < length cdists
                       then Finite (cdists ! size_t_sub 0 1) else stray (size_t_sub 0 1))"
  have rp: "read_unchecked stray cdists (size_t_sub 0 1) = Inr p"
    by (simp only: read_unchecked_def p_def)
  have rc: "read_unchecked stray cdists 0 = Inr (Finite (cdists ! 0))"
    using assms by (simp add: read_unchecked_def)
  have c: "read_cells (read_unchecked stray) cdists (0 + 1) = Inr [Finite (cdists ! 0)]"
    using assms by (simp add: fbind_def read_unchecked_def)
  have n: "sd [Finite (cdists ! 0)] (Suc 0) = NaN" using sd_one [of "cdists ! 0"] by simp
  have g: "dbl_less (dbl_add p (dbl_mul (Finite 2) NaN)) c = False" for c by simp
  show ?thesis
    unfolding auto_break_def rp rc c fbind_def by (simp add: n g)
qed

lemma auto_break_unchecked:
  assumes "k < length cdists" "length cdists < 2 ^ 64"
  shows "auto_break (read_unchecked stray) cdists k = Inr (cut_rule cdists k)"
proof (cases "k = 0")
  case True
  then show ?thesis using assms auto_break_zero_unchecked [of cdists stray]
    by (simp add: cut_rule_def)
next
  case False
  then have "1 \<le> k" by simp
  then show ?thesis using assms by (intro auto_break_inside read_unchecked_inside)
qed

subsection \<open>The automatic scan\<close>

lemma auto_scan_rule:
  assumes "\<And>k. k0 \<le> k \<Longrightarrow> k < length cdists \<Longrightarrow> auto_break rd cdists k = Inr (cut_rule cdists k)"
    and "1 \<le> triplet_size" "triplet_size < 2 ^ 64"
    "length cdists = triplet_size - 1" "k0 \<le> triplet_size - 1"
  shows "\<exists>k. auto_scan rd triplet_size cdists k0 = Inr k \<and> k0 \<le> k \<and> k \<le> triplet_size - 1 \<and>
             (k < triplet_size - 1 \<longrightarrow> cut_rule cdists k) \<and>
             (\<forall>j. k0 \<le> j \<and> j < k \<longrightarrow> \<not> cut_rule cdists j)"
  using assms
proof (induction rd triplet_size cdists k0 rule: auto_scan.induct)
  case (1 rd triplet_size cdists k)
  have ss: "size_t_sub triplet_size 1 = triplet_size - 1"
    using "1.prems" size_t_sub_one [of triplet_size] by simp
  show ?case
  proof (cases "k < triplet_size - 1")
    case False
    then have "auto_scan rd triplet_size cdists k = Inr k"
      by (subst auto_scan.simps) (simp only: ss, simp)
    then show ?thesis using False "1.prems"(5) by auto
  next
    case True
    then have lt: "k < length cdists" using "1.prems" by simp
    have b: "auto_break rd cdists k = Inr (cut_rule cdists k)"
      using "1.prems"(1) [of k] lt by simp
    show ?thesis
    proof (cases "cut_rule cdists k")
      case T: True
      have "auto_scan rd triplet_size cdists k = Inr k"
        using True T by (subst auto_scan.simps) (simp only: ss b, simp)
      then show ?thesis using True T by auto
    next
      case F: False
      have kss: "k < size_t_sub triplet_size 1" using True ss by simp
      have bF: "cut_rule cdists k = False" using F by simp
      have "\<exists>k'. auto_scan rd triplet_size cdists (k + 1) = Inr k' \<and> k + 1 \<le> k' \<and> k' \<le> triplet_size - 1 \<and>
             (k' < triplet_size - 1 \<longrightarrow> cut_rule cdists k') \<and>
             (\<forall>j. k + 1 \<le> j \<and> j < k' \<longrightarrow> \<not> cut_rule cdists j)"
      proof (rule "1.IH" [OF kss b bF])
        fix j assume "k + 1 \<le> j" "j < length cdists"
        then show "auto_break rd cdists j = Inr (cut_rule cdists j)"
          using "1.prems"(1) [of j] by simp
      qed (use "1.prems" True in simp_all)
      then obtain k' where k': "auto_scan rd triplet_size cdists (k + 1) = Inr k'" "k + 1 \<le> k'"
        "k' \<le> triplet_size - 1" "k' < triplet_size - 1 \<longrightarrow> cut_rule cdists k'"
        "\<forall>j. k + 1 \<le> j \<and> j < k' \<longrightarrow> \<not> cut_rule cdists j"
        by blast
      have eq: "auto_scan rd triplet_size cdists k = Inr k'"
        using True F k'(1) by (subst auto_scan.simps) (simp only: ss b, simp)
      have "\<forall>j. k \<le> j \<and> j < k' \<longrightarrow> \<not> cut_rule cdists j"
      proof (intro allI impI)
        fix j assume j: "k \<le> j \<and> j < k'"
        show "\<not> cut_rule cdists j"
        proof (cases "j = k")
          case True
          then show ?thesis using F by simp
        next
          case False
          then show ?thesis using j k'(5) by simp
        qed
      qed
      then show ?thesis using eq k'(2-4) by auto
    qed
  qed
qed

lemma auto_scan_total:
  assumes "1 \<le> k" "1 \<le> triplet_size" "triplet_size < 2 ^ 64" "length cdists = triplet_size - 1"
  shows "\<exists>k'. auto_scan read_checked triplet_size cdists k = Inr k'"
proof (cases "k \<le> triplet_size - 1")
  case True
  have "auto_break read_checked cdists j = Inr (cut_rule cdists j)"
    if "k \<le> j" "j < length cdists" for j
    using that assms by (intro auto_break_inside read_checked_inside) simp_all
  then show ?thesis using auto_scan_rule [OF _ assms(2-4) True, of read_checked] by blast
next
  case False
  then have "\<not> k < size_t_sub triplet_size 1"
    using assms size_t_sub_one [of triplet_size] by simp
  then show ?thesis by (subst auto_scan.simps) simp
qed

lemma length_c_array: "length (c_array n d written) = n"
  by (simp add: c_array_def)

lemma auto_scan_two:
  assumes "n = 2" "length cd < 2 ^ 64"
  shows "auto_scan read_checked n cd ((n - 1) div 2) = Inl (OutOfBounds (2 ^ 64 - 1))"
proof -
  have start: "(n - 1) div 2 = 0" using assms by simp
  have ssub: "size_t_sub n 1 = 1" using size_t_sub_one [of n] assms by simp
  have brk: "auto_break read_checked cd 0 = Inl (OutOfBounds (2 ^ 64 - 1))"
    using assms(2) by (rule auto_break_zero)
  show ?thesis
    by (subst auto_scan.simps) (simp only: start ssub brk, simp)
qed

text \<open>
  C9: with a merge-distance array of length \<open>|T| - 1\<close>, every read that the automatic cut scan
  makes is inside the array exactly when \<open>|T| \<noteq> 2\<close> (the scan then ends with a cut index);
  for \<open>|T| = 2\<close> the scan starts at \<open>k = 0\<close> and its first guard reads \<open>cdists[k - 1]\<close>, that is
  index \<open>2\<^sup>6\<^sup>4 - 1\<close> in \<open>size_t\<close> arithmetic, outside the array.
\<close>

theorem C9_auto_scan_bounds:
  assumes "1 \<le> triplet_size" "triplet_size < 2 ^ 64" "length cdists = triplet_size - 1"
  shows "(triplet_size \<noteq> 2 \<longrightarrow>
            (\<exists>k. auto_scan read_checked triplet_size cdists ((triplet_size - 1) div 2) = Inr k)) \<and>
         (triplet_size = 2 \<longrightarrow>
            (triplet_size - 1) div 2 = 0 \<and>
            auto_break read_checked cdists 0 = Inl (OutOfBounds (2 ^ 64 - 1)) \<and>
            auto_scan read_checked triplet_size cdists ((triplet_size - 1) div 2)
              = Inl (OutOfBounds (2 ^ 64 - 1)))"
proof (intro conjI impI)
  assume ne: "triplet_size \<noteq> 2"
  show "\<exists>k. auto_scan read_checked triplet_size cdists ((triplet_size - 1) div 2) = Inr k"
  proof (cases "triplet_size = 1")
    case True
    have "size_t_sub 1 1 = 0" by (simp add: size_t_sub_def)
    then show ?thesis using True by (subst auto_scan.simps) simp
  next
    case False
    then have "1 \<le> (triplet_size - 1) div 2" using assms(1) ne by simp
    then show ?thesis using auto_scan_total assms by blast
  qed
next
  assume two: "triplet_size = 2"
  then show "(triplet_size - 1) div 2 = 0" by simp
  have len: "length cdists < 2 ^ 64" using assms two by simp
  then show brk: "auto_break read_checked cdists 0 = Inl (OutOfBounds (2 ^ 64 - 1))"
    by (rule auto_break_zero)
  show "auto_scan read_checked triplet_size cdists ((triplet_size - 1) div 2)
          = Inl (OutOfBounds (2 ^ 64 - 1))"
    using two len by (rule auto_scan_two)
qed

lemma auto_scan_3_zero: "auto_scan read_checked 3 [0, 0] ((3 - 1) div 2) = Inr 2"
proof -
  have s3: "size_t_sub 3 1 = 2" using size_t_sub_one [of 3] by simp
  have s1: "size_t_sub 1 1 = 0" by (simp add: size_t_sub_def)
  have r0: "read_checked [0, 0] 0 = Inr (Finite 0)" by (simp add: read_checked_def)
  have r1: "read_checked [0, 0] 1 = Inr (Finite 0)" by (simp add: read_checked_def)
  have b1: "auto_break read_checked [0, 0] 1 = Inr False"
    unfolding auto_break_def s1 r0 r1 fbind_def by simp
  have e2: "auto_scan read_checked 3 [0, 0] 2 = Inr 2"
    by (subst auto_scan.simps) (simp only: s3, simp)
  have e2': "auto_scan read_checked 3 [0, 0] (1 + 1) = Inr 2" using e2 by (simp only: one_add_one)
  have e1: "auto_scan read_checked 3 [0, 0] 1 = Inr 2"
    by (subst auto_scan.simps) (simp only: s3 b1 e2', simp)
  then show ?thesis by simp
qed

theorem C9_auto_scan_bounds_witness:
  "(1::nat) \<le> 3 \<and> (3::nat) < 2 ^ 64 \<and> length [0, 0 :: real] = 3 - 1 \<and>
   auto_scan read_checked 3 [0, 0] ((3 - 1) div 2) = Inr 2 \<and>
   (1::nat) \<le> 2 \<and> (2::nat) < 2 ^ 64 \<and> length [7 :: real] = 2 - 1 \<and>
   auto_scan read_checked 2 [7] ((2 - 1) div 2) = Inl (OutOfBounds (2 ^ 64 - 1))"
  using C9_auto_scan_bounds [of 3 "[0, 0]"] C9_auto_scan_bounds [of 2 "[7]"] auto_scan_3_zero
  by simp

subsection \<open>The scan with a fixed threshold\<close>

lemma dbl_le_Finite [simp]: "dbl_le (Finite u) (Finite v) = (u \<le> v)"
  by (auto simp: dbl_le_def)

lemma fixed_scan_rule:
  assumes rd: "\<And>i. i < length cdists \<Longrightarrow> rd cdists i = Inr (Finite (cdists ! i))"
    and "1 \<le> triplet_size" "triplet_size < 2 ^ 64"
    "length cdists = triplet_size - 1" "k0 \<le> triplet_size - 1"
  shows "\<exists>k. fixed_scan rd triplet_size cdists t k0 = Inr k \<and> k0 \<le> k \<and> k \<le> triplet_size - 1 \<and>
             (k < triplet_size - 1 \<longrightarrow> cdists ! k \<ge> t) \<and>
             (\<forall>j. k0 \<le> j \<and> j < k \<longrightarrow> \<not> cdists ! j \<ge> t)"
  using assms
proof (induction rd triplet_size cdists t k0 rule: fixed_scan.induct)
  case (1 rd triplet_size cdists t k)
  have ss: "size_t_sub triplet_size 1 = triplet_size - 1"
    using "1.prems" size_t_sub_one [of triplet_size] by simp
  show ?case
  proof (cases "k < triplet_size - 1")
    case False
    then have "fixed_scan rd triplet_size cdists t k = Inr k"
      by (subst fixed_scan.simps) (simp only: ss, simp)
    then show ?thesis using False "1.prems"(5) by auto
  next
    case True
    then have lt: "k < length cdists" using "1.prems" by simp
    have r: "rd cdists k = Inr (Finite (cdists ! k))" using lt by (rule "1.prems"(1))
    show ?thesis
    proof (cases "cdists ! k \<ge> t")
      case T: True
      have "fixed_scan rd triplet_size cdists t k = Inr k"
        using True T by (subst fixed_scan.simps) (simp only: ss r, simp)
      then show ?thesis using True T by auto
    next
      case F: False
      have kss: "k < size_t_sub triplet_size 1" using True ss by simp
      have nle: "\<not> dbl_le (Finite t) (Finite (cdists ! k))" using F by simp
      have "\<exists>k'. fixed_scan rd triplet_size cdists t (k + 1) = Inr k' \<and> k + 1 \<le> k' \<and> k' \<le> triplet_size - 1 \<and>
             (k' < triplet_size - 1 \<longrightarrow> cdists ! k' \<ge> t) \<and>
             (\<forall>j. k + 1 \<le> j \<and> j < k' \<longrightarrow> \<not> cdists ! j \<ge> t)"
        by (rule "1.IH" [OF kss r nle]) (use "1.prems" True in simp_all)
      then obtain k' where k': "fixed_scan rd triplet_size cdists t (k + 1) = Inr k'" "k + 1 \<le> k'"
        "k' \<le> triplet_size - 1" "k' < triplet_size - 1 \<longrightarrow> cdists ! k' \<ge> t"
        "\<forall>j. k + 1 \<le> j \<and> j < k' \<longrightarrow> \<not> cdists ! j \<ge> t"
        by blast
      have eq: "fixed_scan rd triplet_size cdists t k = Inr k'"
        using True F k'(1) by (subst fixed_scan.simps) (simp only: ss r, simp)
      have "\<forall>j. k \<le> j \<and> j < k' \<longrightarrow> \<not> cdists ! j \<ge> t"
      proof (intro allI impI)
        fix j assume j: "k \<le> j \<and> j < k'"
        show "\<not> cdists ! j \<ge> t"
        proof (cases "j = k")
          case True
          then show ?thesis using F by simp
        next
          case False
          then show ?thesis using j k'(5) by simp
        qed
      qed
      then show ?thesis using eq k'(2-4) by auto
    qed
  qed
qed

text \<open>The block that prints \<open>automatic_t\<close> only reads.\<close>

lemma verbose_reads_unchecked:
  "\<exists>a. verbose_reads (read_unchecked stray) triplet_size cdists k = Inr a"
  by (simp add: verbose_reads_def fbind_def read_unchecked_def)

subsection \<open>The clusters built from the labels\<close>

lemma size_t_of_int_nat:
  assumes "0 \<le> l" "l < 2 ^ 64"
  shows "size_t_of_int l = nat l"
  using assms by (simp add: size_t_of_int_def)

lemma fill_clusters_correct:
  assumes "\<forall>i \<in> set is. i < length labels \<and> 0 \<le> labels ! i \<and> labels ! i < int (length result)"
    and "length result < 2 ^ 64"
  shows "\<exists>r. fill_clusters labels is result = Inr r \<and> length r = length result \<and>
             (\<forall>j < length result. r ! j = result ! j @ filter (\<lambda>i. nat (labels ! i) = j) is)"
  using assms
proof (induction "is" arbitrary: result)
  case Nil
  then show ?case by simp
next
  case (Cons i "is")
  let ?l = "labels ! i"
  have i: "i < length labels" "0 \<le> ?l" "?l < int (length result)" using Cons.prems(1) by simp_all
  have "int (length result) < 2 ^ 64" using Cons.prems(2) by (simp add: nat_less_iff [symmetric] flip: of_nat_less_iff)
  then have "?l < 2 ^ 64" using i(3) by linarith
  then have sz: "size_t_of_int ?l = nat ?l" using i(2) by (rule size_t_of_int_nat [rotated])
  have nl: "nat ?l < length result" using i by linarith
  let ?result' = "result[nat ?l := result ! nat ?l @ [i]]"
  have step: "fill_clusters labels (i # is) result = fill_clusters labels is ?result'"
    using i(1) nl by (simp add: fbind_def read_at_def sz)
  have "\<forall>i \<in> set is. i < length labels \<and> 0 \<le> labels ! i \<and> labels ! i < int (length ?result')"
    using Cons.prems(1) by simp
  moreover have "length ?result' < 2 ^ 64" using Cons.prems(2) by simp
  ultimately obtain r where r: "fill_clusters labels is ?result' = Inr r" "length r = length ?result'"
    "\<forall>j < length ?result'. r ! j = ?result' ! j @ filter (\<lambda>i. nat (labels ! i) = j) is"
    using Cons.IH [of ?result'] by blast
  have "\<forall>j < length result. r ! j = result ! j @ filter (\<lambda>i. nat (labels ! i) = j) (i # is)"
    using r(3) nl by (auto simp: nth_list_update)
  then show ?case unfolding step using r(1,2) by simp
qed

lemma c_array_full: "length written = n \<Longrightarrow> c_array n d written = written"
  by (simp add: c_array_def)

lemma labels_partition:
  assumes len: "length labels = n" and rng: "\<forall>l \<in> set labels. 0 \<le> l \<and> l < int c"
    and c: "c < 2 ^ 64"
  shows "\<exists>result. fill_clusters labels [0 ..< n] (replicate c []) = Inr result \<and>
           length result = c \<and>
           (\<forall>i < n. \<exists>!j. j < length result \<and> i \<in> set (result ! j)) \<and>
           (\<forall>cl \<in> set result. distinct cl \<and> set cl \<subseteq> {..<n})"
proof -
  have pre: "\<forall>i \<in> set [0 ..< n]. i < length labels \<and> 0 \<le> labels ! i
               \<and> labels ! i < int (length (replicate c ([] :: nat list)))"
    using len rng by simp
  have lc: "length (replicate c ([] :: nat list)) < 2 ^ 64" using c by simp
  obtain r where r: "fill_clusters labels [0 ..< n] (replicate c []) = Inr r" "length r = c"
    and nth: "\<forall>j < c. r ! j = filter (\<lambda>i. nat (labels ! i) = j) [0 ..< n]"
    using fill_clusters_correct [OF pre lc] by auto
  have lab: "nat (labels ! i) < c" if "i < n" for i
  proof -
    have "labels ! i \<in> set labels" using that len by simp
    then have "0 \<le> labels ! i" "labels ! i < int c" using rng by blast+
    then show ?thesis by linarith
  qed
  have part: "\<exists>!j. j < length r \<and> i \<in> set (r ! j)" if "i < n" for i
  proof (rule ex1I [of _ "nat (labels ! i)"])
    show "nat (labels ! i) < length r \<and> i \<in> set (r ! nat (labels ! i))"
      using lab [OF that] that nth r(2) by simp
    fix j assume "j < length r \<and> i \<in> set (r ! j)"
    then show "j = nat (labels ! i)" using nth r(2) by auto
  qed
  have dist: "distinct cl \<and> set cl \<subseteq> {..<n}" if "cl \<in> set r" for cl
  proof -
    from that obtain j where j: "j < length r" "r ! j = cl"
      unfolding in_set_conv_nth by blast
    then have "cl = filter (\<lambda>i. nat (labels ! i) = j) [0 ..< n]" using nth r(2) by simp
    then show ?thesis by auto
  qed
  show ?thesis
  proof (intro exI [of _ r] conjI)
    show "fill_clusters labels [0 ..< n] (replicate c []) = Inr r" by (rule r(1))
    show "length r = c" by (rule r(2))
    show "\<forall>i < n. \<exists>!j. j < length r \<and> i \<in> set (r ! j)" using part by blast
    show "\<forall>cl \<in> set r. distinct cl \<and> set cl \<subseteq> {..<n}" using dist by blast
  qed
qed

subsection \<open>The clusters of compute_hc\<close>

text \<open>
  Where the reads outside \<open>cdists\<close> go on with what the memory holds, and \<open>cutree_k\<close> labels
  every observation with one of the requested cluster numbers, \<open>compute_hc\<close> returns for
  every non-empty triplet sequence: the scan ends with an index \<open>k \<le> N - 1\<close>, and the \<open>N - k\<close>
  clusters hold every triplet index exactly once.
\<close>

lemma compute_hc_clusters:
  assumes ct: "cutree_k_spec cutree_k" and ne: "triplets \<noteq> []"
    and sz: "length triplets < 2 ^ 64"
  shows "\<exists>result k.
           compute_hc (read_unchecked stray) hclust_fast cutree_k cloud [] triplets s t tauto
             method opt_verbose = Inr result \<and>
           (if tauto
            then auto_scan (read_unchecked stray) (length triplets)
                   (c_array (length triplets - 1) 0
                      (snd (hclust_fast (length triplets)
                              (calculate_distance_matrix triplets (ScaleTripletMetric s)) method)))
                   ((length triplets - 1) div 2)
            else fixed_scan (read_unchecked stray) (length triplets)
                   (c_array (length triplets - 1) 0
                      (snd (hclust_fast (length triplets)
                              (calculate_distance_matrix triplets (ScaleTripletMetric s)) method)))
                   t 0) = Inr k \<and>
           k \<le> length triplets - 1 \<and> length result = length triplets - k \<and>
           (\<forall>i < length triplets. \<exists>!j. j < length result \<and> i \<in> set (result ! j)) \<and>
           (\<forall>cl \<in> set result. distinct cl \<and> set cl \<subseteq> {..<length triplets})"
proof -
  let ?n = "length triplets"
  let ?rd = "read_unchecked stray"
  define written where
    "written = hclust_fast ?n (calculate_distance_matrix triplets (ScaleTripletMetric s)) method"
  define merge where "merge = c_array (2 * (?n - 1)) 0 (fst written)"
  define cdists where "cdists = c_array (?n - 1) 0 (snd written)"
  define scan where "scan =
     (if tauto
      then fbind (auto_scan ?rd ?n cdists ((?n - 1) div 2)) (\<lambda>k.
           if opt_verbose \<noteq> 0
           then fbind (verbose_reads ?rd ?n cdists k) (\<lambda>automatic_t. Inr k)
           else Inr k)
      else fixed_scan ?rd ?n cdists t 0)"
  have n1: "1 \<le> ?n" using ne by (cases triplets) simp_all
  have lcd: "length cdists = ?n - 1" by (simp add: cdists_def length_c_array)
  have unfold: "compute_hc ?rd hclust_fast cutree_k cloud [] triplets s t tauto method opt_verbose
      = fbind scan (\<lambda>k. fill_clusters (c_array ?n 0 (cutree_k ?n merge (?n - k))) [0 ..< ?n]
                          ([] @ replicate (?n - k) []))"
    unfolding compute_hc_def Let_def scan_def cdists_def merge_def written_def
    using ne by simp
  define scan0 where "scan0 =
     (if tauto then auto_scan ?rd ?n cdists ((?n - 1) div 2) else fixed_scan ?rd ?n cdists t 0)"
  have "\<exists>k. scan = Inr k \<and> scan0 = Inr k \<and> k \<le> ?n - 1"
  proof (cases tauto)
    case False
    have "\<exists>k. fixed_scan ?rd ?n cdists t 0 = Inr k \<and> k \<le> ?n - 1"
      using fixed_scan_rule [of cdists ?rd ?n 0 t, OF read_unchecked_inside n1 sz lcd] by auto
    then show ?thesis using False by (auto simp: scan_def scan0_def)
  next
    case True
    have "auto_break ?rd cdists j = Inr (cut_rule cdists j)" if "j < length cdists" for j
      using that lcd sz by (intro auto_break_unchecked) simp_all
    then obtain k where k: "auto_scan ?rd ?n cdists ((?n - 1) div 2) = Inr k" "k \<le> ?n - 1"
      using auto_scan_rule [OF _ n1 sz lcd, of "(?n - 1) div 2" ?rd] by auto
    obtain a where "verbose_reads ?rd ?n cdists k = Inr a"
      using verbose_reads_unchecked by blast
    then show ?thesis using True k by (auto simp: scan_def scan0_def fbind_def)
  qed
  then obtain k where k: "scan = Inr k" "k \<le> ?n - 1" and k0: "scan0 = Inr k" by blast
  let ?c = "?n - k"
  have c: "1 \<le> ?c" "?c \<le> ?n" using k(2) n1 by simp_all
  have ll: "length (cutree_k ?n merge ?c) = ?n"
    and lr: "\<forall>l \<in> set (cutree_k ?n merge ?c). 0 \<le> l \<and> l < int ?c"
    using ct c unfolding cutree_k_spec_def by blast+
  have lab: "c_array ?n 0 (cutree_k ?n merge ?c) = cutree_k ?n merge ?c"
    by (rule c_array_full [OF ll])
  have "?c < 2 ^ 64" using c(2) sz by linarith
  then obtain result where
    r: "fill_clusters (cutree_k ?n merge ?c) [0 ..< ?n] (replicate ?c []) = Inr result"
    and rl: "length result = ?c"
    and p: "\<forall>i < ?n. \<exists>!j. j < length result \<and> i \<in> set (result ! j)"
    and d: "\<forall>cl \<in> set result. distinct cl \<and> set cl \<subseteq> {..<?n}"
    using labels_partition [OF ll lr] by blast
  have "compute_hc ?rd hclust_fast cutree_k cloud [] triplets s t tauto method opt_verbose = Inr result"
    unfolding unfold k(1) by (simp add: fbind_def lab r)
  moreover note k0 [unfolded scan0_def cdists_def written_def]
  ultimately show ?thesis using k(2) rl p d by (intro exI [of _ result] exI [of _ k] conjI)
qed

text \<open>
  Two triplets in automatic mode: the scan starts at \<open>k = 0\<close>, its guard is false there, and
  the loop is left with \<open>k = 1\<close>; \<open>cutree_k\<close> is asked for one cluster, which holds both
  triplets.
\<close>

lemma auto_scan_two_unchecked:
  assumes "n = 2" "length cd = 1"
  shows "auto_scan (read_unchecked stray) n cd ((n - 1) div 2) = Inr 1"
proof -
  have start: "(n - 1) div 2 = 0" using assms by simp
  have s2: "size_t_sub n 1 = 1" using size_t_sub_one [of n] assms by simp
  have b: "auto_break (read_unchecked stray) cd 0 = Inr False"
    using assms by (intro auto_break_zero_unchecked) simp
  have e1: "auto_scan (read_unchecked stray) n cd (0 + 1) = Inr 1"
    by (subst auto_scan.simps) (simp only: s2, simp)
  show ?thesis
    by (subst auto_scan.simps) (simp only: start s2 b e1, simp)
qed

lemma compute_hc_unfold:
  assumes "triplets \<noteq> []"
  shows "compute_hc rd hclust_fast cutree_k cloud result triplets s t tauto method opt_verbose =
     fbind (if tauto
            then fbind (auto_scan rd (length triplets)
                          (c_array (length triplets - 1) 0
                             (snd (hclust_fast (length triplets)
                                (calculate_distance_matrix triplets (ScaleTripletMetric s)) method)))
                          ((length triplets - 1) div 2)) (\<lambda>k.
                 if opt_verbose \<noteq> 0
                 then fbind (verbose_reads rd (length triplets)
                          (c_array (length triplets - 1) 0
                             (snd (hclust_fast (length triplets)
                                (calculate_distance_matrix triplets (ScaleTripletMetric s)) method)))
                          k) (\<lambda>automatic_t. Inr k)
                 else Inr k)
            else fixed_scan rd (length triplets)
                          (c_array (length triplets - 1) 0
                             (snd (hclust_fast (length triplets)
                                (calculate_distance_matrix triplets (ScaleTripletMetric s)) method)))
                          t 0)
       (\<lambda>k. fill_clusters
               (c_array (length triplets) 0
                  (cutree_k (length triplets)
                     (c_array (2 * (length triplets - 1)) 0
                        (fst (hclust_fast (length triplets)
                           (calculate_distance_matrix triplets (ScaleTripletMetric s)) method)))
                     (length triplets - k)))
               [0 ..< length triplets] (result @ replicate (length triplets - k) []))"
  unfolding compute_hc_def Let_def using assms by simp

lemma compute_hc_two_triplets:
  assumes ct: "cutree_k_spec cutree_k" and n2: "length triplets = 2"
  shows "compute_hc (read_unchecked stray) hclust_fast cutree_k cloud [] triplets s t True
           method opt_verbose = Inr [[0, 1]]"
proof -
  let ?rd = "read_unchecked stray"
  define cdists where "cdists = c_array (length triplets - 1) 0
     (snd (hclust_fast (length triplets)
        (calculate_distance_matrix triplets (ScaleTripletMetric s)) method))"
  define merge where "merge = c_array (2 * (length triplets - 1)) 0
     (fst (hclust_fast (length triplets)
        (calculate_distance_matrix triplets (ScaleTripletMetric s)) method))"
  have ne: "triplets \<noteq> []" using n2 by auto
  have lcd: "length cdists = 1" using n2 by (simp add: cdists_def length_c_array)
  have scan: "auto_scan ?rd (length triplets) cdists ((length triplets - 1) div 2) = Inr 1"
    using n2 lcd by (rule auto_scan_two_unchecked)
  obtain a where v: "verbose_reads ?rd (length triplets) cdists 1 = Inr a"
    using verbose_reads_unchecked by blast
  have "(1::nat) \<le> 1 \<and> (1::nat) \<le> 2" by simp
  then have "length (cutree_k 2 merge 1) = 2 \<and>
             (\<forall>l \<in> set (cutree_k 2 merge 1). 0 \<le> l \<and> l < int 1)"
    using ct unfolding cutree_k_spec_def by blast
  then have l2: "length (cutree_k 2 merge 1) = 2"
    and l0: "\<And>l. l \<in> set (cutree_k 2 merge 1) \<Longrightarrow> l = 0" by auto
  obtain x y where xy: "cutree_k 2 merge 1 = [x, y]"
    using l2 by (cases "cutree_k 2 merge 1"; cases "tl (cutree_k 2 merge 1)") auto
  have "cutree_k 2 merge 1 = [0, 0]" using l0 [of x] l0 [of y] unfolding xy by simp
  then have lab: "cutree_k (length triplets) merge (length triplets - 1) = [0, 0]"
    using n2 by simp
  have u: "[0 ..< length triplets] = [0, 1]" using n2 by (simp add: upt_conv_Cons)
  have fill: "fill_clusters (c_array (length triplets) 0 [0, 0]) [0 ..< length triplets]
                ([] @ replicate (length triplets - 1) []) = Inr [[0, 1]]"
    unfolding u using n2 by (simp add: fbind_def read_at_def size_t_of_int_def c_array_def)
  have scanv: "fbind (auto_scan ?rd (length triplets) cdists ((length triplets - 1) div 2)) (\<lambda>k.
                 if opt_verbose \<noteq> 0
                 then fbind (verbose_reads ?rd (length triplets) cdists k) (\<lambda>automatic_t. Inr k)
                 else Inr k) = Inr 1"
    unfolding scan using v by (simp add: fbind_def)
  show ?thesis
    unfolding compute_hc_unfold [OF ne] if_True
    unfolding cdists_def [symmetric] merge_def [symmetric] scanv
    by (simp only: fbind_def sum.case lab fill)
qed


text \<open>
  C6: for every non-empty triplet sequence, in either mode, the cluster group that
  \<open>compute_hc\<close> builds holds every triplet index in exactly one cluster, no index twice
  within a cluster, and nothing but triplet indices.
\<close>

theorem C6_compute_hc_partition:
  assumes "cutree_k_spec cutree_k" "triplets \<noteq> []" "length triplets < 2 ^ 64"
  shows "\<exists>result.
           compute_hc (read_unchecked stray) hclust_fast cutree_k cloud [] triplets s t tauto
             method opt_verbose = Inr result \<and>
           (\<forall>i < length triplets. \<exists>!j. j < length result \<and> i \<in> set (result ! j)) \<and>
           (\<forall>cl \<in> set result. distinct cl \<and> set cl \<subseteq> {..<length triplets})"
proof -
  obtain result where
    "compute_hc (read_unchecked stray) hclust_fast cutree_k cloud [] triplets s t tauto
       method opt_verbose = Inr result"
    "\<forall>i < length triplets. \<exists>!j. j < length result \<and> i \<in> set (result ! j)"
    "\<forall>cl \<in> set result. distinct cl \<and> set cl \<subseteq> {..<length triplets}"
    using compute_hc_clusters [OF assms, of stray hclust_fast cloud s t tauto "method" opt_verbose]
    by (elim exE conjE)
  then show ?thesis by (intro exI [of _ result] conjI)
qed

lemma cutree_k_spec_sample: "cutree_k_spec sample_cutree_k"
  unfolding cutree_k_spec_def sample_cutree_k_def by auto




theorem C6_compute_hc_partition_witness:
  "cutree_k_spec sample_cutree_k \<and> [tr_origin, tr_far] \<noteq> [] \<and>
   length [tr_origin, tr_far] < (2::nat) ^ 64 \<and>
   compute_hc (read_unchecked (\<lambda>i. NaN)) (\<lambda>n dm link. ([], dm)) sample_cutree_k (line4 False) []
     [tr_origin, tr_far] 1 0 True SINGLE 0 = Inr [[0, 1]] \<and>
   (\<exists>result. compute_hc (read_unchecked (\<lambda>i. NaN)) (\<lambda>n dm link. ([], dm)) sample_cutree_k
                (line4 False) [] [tr_origin, tr_far] 1 0 False SINGLE 0 = Inr result \<and>
              (\<exists>j. j < length result \<and> 0 \<in> set (result ! j)) \<and>
              (\<exists>j. j < length result \<and> 1 \<in> set (result ! j)))"
proof -
  have ne: "[tr_origin, tr_far] \<noteq> []" by simp
  have sz: "length [tr_origin, tr_far] < (2::nat) ^ 64" by simp
  obtain result where r: "compute_hc (read_unchecked (\<lambda>i. NaN)) (\<lambda>n dm link. ([], dm))
        sample_cutree_k (line4 False) [] [tr_origin, tr_far] 1 0 False SINGLE 0 = Inr result"
    and p: "\<forall>i < length [tr_origin, tr_far]. \<exists>!j. j < length result \<and> i \<in> set (result ! j)"
    using C6_compute_hc_partition [OF cutree_k_spec_sample ne sz, of "\<lambda>i. NaN"
        "\<lambda>n dm link. ([], dm)" "line4 False" 1 0 False SINGLE 0]
    by (elim exE conjE)
  have "\<exists>j. j < length result \<and> 0 \<in> set (result ! j)" using p by auto
  moreover have "\<exists>j. j < length result \<and> 1 \<in> set (result ! j)" using p by auto
  moreover have "compute_hc (read_unchecked (\<lambda>i. NaN)) (\<lambda>n dm link. ([], dm)) sample_cutree_k
     (line4 False) [] [tr_origin, tr_far] 1 0 True SINGLE 0 = Inr [[0, 1]]"
    by (rule compute_hc_two_triplets [OF cutree_k_spec_sample]) simp
  ultimately show ?thesis using cutree_k_spec_sample r by (intro conjI exI [of _ result]) simp_all
qed

section \<open>Properties of the triplet generation\<close>

lemma triplet_nodes_member:
  assumes "nd \<in> set (triplet_nodes cloud)"
  shows "kd_data nd < length (points cloud) \<and>
         kd_point nd = as_vector (points cloud ! kd_data nd) \<and>
         kd_index nd = p_index (points cloud ! kd_data nd)"
  using assms by (auto simp: triplet_nodes_def)

lemma map_kd_data_triplet_nodes:
  "map kd_data (triplet_nodes cloud) = [0 ..< length (points cloud)]"
  by (simp add: triplet_nodes_def o_def)

lemma distinct_map_sort_key:
  "distinct (map g (sort_key f xs)) = distinct (map g xs)"
proof -
  have "mset (map g (sort_key f xs)) = mset (map g xs)" by simp
  then show ?thesis by (metis distinct_count_atmost_1 set_mset_mset)
qed

lemma k_nearest_neighbors_result:
  assumes "found = k_nearest_neighbors nodes q k"
  shows "set (fst found) \<subseteq> set nodes"
    and "distinct (map g nodes) \<Longrightarrow> distinct (map g (fst found))"
    and "zip (fst found) (snd found) = map (\<lambda>n. (n, sqdist (kd_point n) q)) (fst found)"
proof -
  have f: "fst found = take k (sort_key (\<lambda>n. sqdist (kd_point n) q) nodes)"
    using assms by (simp add: k_nearest_neighbors_def Let_def)
  have s: "snd found = map (\<lambda>n. sqdist (kd_point n) q) (fst found)"
    using assms by (simp add: k_nearest_neighbors_def Let_def)
  show "set (fst found) \<subseteq> set nodes"
    unfolding f using set_take_subset [of k "sort_key (\<lambda>n. sqdist (kd_point n) q) nodes"] by simp
  show "distinct (map g nodes) \<Longrightarrow> distinct (map g (fst found))"
    unfolding f by (simp add: take_map [symmetric] distinct_map_sort_key del: distinct_map)
  show "zip (fst found) (snd found) = map (\<lambda>n. (n, sqdist (kd_point n) q)) (fst found)"
    unfolding s by (simp add: zip_map2 zip_same_conv_map)
qed

lemma norm_p_sub: "norm_p (p_sub p q) = sqrt (sqdist (as_vector p) (as_vector q))"
  by (simp add: norm_p_def p_sub_def Point3_def sqdist_def as_vector_def)

lemma sqdist_nonneg: "0 \<le> sqdist v w"
  by (cases v, cases w) (simp add: sqdist_def)

lemma norm_p_sub_zero_iff: "norm_p (p_sub p q) = 0 \<longleftrightarrow> sqdist (as_vector p) (as_vector q) = 0"
  by (simp add: norm_p_sub sqdist_nonneg)

lemma norm_p_unit:
  assumes "norm_p v \<noteq> 0"
  shows "norm_p (p_div v (norm_p v)) = 1"
proof -
  let ?s = "(p_x v * p_x v) + (p_y v * p_y v) + (p_z v * p_z v)"
  have pos: "0 < ?s"
  proof -
    have "0 \<le> ?s" by simp
    moreover have "?s \<noteq> 0" using assms by (auto simp: norm_p_def)
    ultimately show ?thesis by linarith
  qed
  have n: "norm_p v = sqrt ?s" by (simp add: norm_p_def)
  have sq: "sqrt ?s * sqrt ?s = ?s" using pos by simp
  have "(p_x v / sqrt ?s) * (p_x v / sqrt ?s) + (p_y v / sqrt ?s) * (p_y v / sqrt ?s)
        + (p_z v / sqrt ?s) * (p_z v / sqrt ?s)
        = (p_x v * p_x v) / (sqrt ?s * sqrt ?s) + (p_y v * p_y v) / (sqrt ?s * sqrt ?s)
          + (p_z v * p_z v) / (sqrt ?s * sqrt ?s)"
    by (simp only: times_divide_times_eq)
  also have "\<dots> = ?s / ?s" by (simp only: sq add_divide_distrib)
  also have "\<dots> = 1" using pos by simp
  finally have "sqrt ((p_x v / sqrt ?s) * (p_x v / sqrt ?s) + (p_y v / sqrt ?s) * (p_y v / sqrt ?s)
        + (p_z v / sqrt ?s) * (p_z v / sqrt ?s)) = 1" by simp
  then show ?thesis
    unfolding norm_p_def p_div_def Point3_def by simp
qed

lemma p_sub_Point_of_node_left:
  "kd_point nd = as_vector p \<Longrightarrow> p_sub (Point_of_node nd) q = p_sub p q"
  by (simp add: Point_of_node_def Point_of_vector_def as_vector_def p_sub_def Point3_def)

lemma p_sub_Point_of_node_right:
  "kd_point nd = as_vector p \<Longrightarrow> p_sub q (Point_of_node nd) = p_sub q p"
  by (simp add: Point_of_node_def Point_of_vector_def as_vector_def p_sub_def Point3_def)

lemma p_index_Point_of_node: "p_index (Point_of_node nd) = kd_index nd"
  by (simp add: Point_of_node_def)

lemma loop_c_member:
  assumes "t \<in> set (loop_c cloud a pb ib pa ia dab rest)"
  shows "\<exists>nc dc. (nc, dc) \<in> set rest \<and> dc \<noteq> 0 \<and>
           \<not> (isOrdered cloud \<and> p_index pb > p_index (Point_of_node nc)) \<and>
           point_index_a t = ia \<and> point_index_b t = ib \<and> point_index_c t = kd_data nc \<and>
           direction t = p_div (p_sub (Point_of_node nc) pb) (norm_p (p_sub (Point_of_node nc) pb)) \<and>
           error t = 1 - p_dot dab (p_div (p_sub (Point_of_node nc) pb) (norm_p (p_sub (Point_of_node nc) pb))) \<and>
           error t \<le> a"
  using assms
proof (induction rest)
  case Nil
  then show ?case by simp
next
  case (Cons e rest)
  obtain nc dc where e: "e = (nc, dc)" by (cases e)
  show ?case
  proof (cases "t \<in> set (loop_c cloud a pb ib pa ia dab rest)")
    case True
    then show ?thesis using Cons.IH by auto
  next
    case False
    with Cons.prems e show ?thesis
      by (auto simp: Let_def split: if_splits)
  qed
qed

lemma loop_a_member:
  assumes "t \<in> set (loop_a cloud a pb ib l)"
  shows "\<exists>l1 na da l2. l = l1 @ (na, da) # l2 \<and> da \<noteq> 0 \<and>
           \<not> (isOrdered cloud \<and> p_index (Point_of_node na) > p_index pb) \<and>
           t \<in> set (loop_c cloud a pb ib (Point_of_node na) (kd_data na)
                      (p_div (p_sub pb (Point_of_node na)) (norm_p (p_sub pb (Point_of_node na)))) l2)"
  using assms
proof (induction l)
  case Nil
  then show ?case by simp
next
  case (Cons e l)
  obtain na da where e: "e = (na, da)" by (cases e)
  show ?case
  proof (cases "t \<in> set (loop_a cloud a pb ib l)")
    case True
    then obtain l1 na' da' l2 where h: "l = l1 @ (na', da') # l2" "da' \<noteq> 0"
        "\<not> (isOrdered cloud \<and> p_index (Point_of_node na') > p_index pb)"
        "t \<in> set (loop_c cloud a pb ib (Point_of_node na') (kd_data na')
                      (p_div (p_sub pb (Point_of_node na')) (norm_p (p_sub pb (Point_of_node na')))) l2)"
      using Cons.IH by blast
    have "e # l = (e # l1) @ (na', da') # l2" using h(1) by simp
    with h(2-4) show ?thesis by blast
  next
    case False
    with Cons.prems e have
      "da \<noteq> 0" "\<not> (isOrdered cloud \<and> p_index (Point_of_node na) > p_index pb)"
      "t \<in> set (loop_c cloud a pb ib (Point_of_node na) (kd_data na)
                      (p_div (p_sub pb (Point_of_node na)) (norm_p (p_sub pb (Point_of_node na)))) l)"
      by (auto simp: Let_def split: if_splits)
    moreover have "e # l = [] @ (na, da) # l" using e by simp
    ultimately show ?thesis by blast
  qed
qed

lemma set_generate_triplets:
  "set (generate_triplets std_sort cloud triplets k n a) =
     set triplets \<union> (\<Union>b \<in> {0 ..< length (points cloud)}. set (midpoint_triplets std_sort cloud k n a b))"
proof -
  have "set (foldl (\<lambda>ts b. ts @ f b) ts0 bs) = set ts0 \<union> (\<Union>b \<in> set bs. set (f b))"
    for f :: "nat \<Rightarrow> triplet list" and ts0 bs
    by (induction bs arbitrary: ts0) auto
  then show ?thesis by (simp add: generate_triplets_def)
qed

lemma std_sort_spec_set: "std_sort_spec lt std_sort \<Longrightarrow> set (std_sort xs) = set xs"
  by (metis std_sort_spec_def set_mset_mset)

lemma set_midpoint_triplets:
  assumes "std_sort_spec lt std_sort"
  shows "set (midpoint_triplets std_sort cloud k n a b) \<subseteq> set (triplet_candidates cloud k a b)"
proof -
  have "set (midpoint_triplets std_sort cloud k n a b) \<subseteq> set (std_sort (triplet_candidates cloud k a b))"
    unfolding midpoint_triplets_def Let_def by (rule set_take_subset)
  then show ?thesis using std_sort_spec_set [OF assms] by simp
qed

lemma triplet_candidates_valid:
  assumes b: "b < length (points cloud)"
    and t: "t \<in> set (triplet_candidates cloud k a b)"
  shows "point_index_a t < length (points cloud) \<and>
         point_index_b t = b \<and>
         point_index_c t < length (points cloud) \<and>
         norm_p (p_sub (points cloud ! point_index_b t) (points cloud ! point_index_a t)) \<noteq> 0 \<and>
         norm_p (p_sub (points cloud ! point_index_c t) (points cloud ! point_index_b t)) \<noteq> 0 \<and>
         error t = 1 - p_dot (unit_vector (points cloud ! point_index_a t) (points cloud ! point_index_b t))
                             (unit_vector (points cloud ! point_index_b t) (points cloud ! point_index_c t)) \<and>
         error t \<le> a \<and>
         direction t = unit_vector (points cloud ! point_index_b t) (points cloud ! point_index_c t) \<and>
         point_index_a t \<noteq> point_index_b t \<and> point_index_b t \<noteq> point_index_c t \<and>
         point_index_a t \<noteq> point_index_c t \<and>
         (isOrdered cloud \<longrightarrow>
            p_index (points cloud ! point_index_a t) \<le> p_index (points cloud ! point_index_b t) \<and>
            p_index (points cloud ! point_index_b t) \<le> p_index (points cloud ! point_index_c t))"
proof -
  let ?pts = "points cloud"
  let ?pb = "?pts ! b"
  let ?q = "as_vector ?pb"
  define found where "found = k_nearest_neighbors (triplet_nodes cloud) ?q k"
  define pairs where "pairs = drop 1 (zip (fst found) (snd found))"
  have pairs_eq: "pairs = map (\<lambda>n. (n, sqdist (kd_point n) ?q)) (drop 1 (fst found))"
    unfolding pairs_def k_nearest_neighbors_result(3) [OF found_def] by (simp add: drop_map)
  have sub: "set (fst found) \<subseteq> set (triplet_nodes cloud)"
    by (rule k_nearest_neighbors_result(1) [OF found_def])
  have "distinct (map kd_data (fst found))"
    by (rule k_nearest_neighbors_result(2) [OF found_def]) (simp add: map_kd_data_triplet_nodes)
  then have dist: "distinct (map kd_data (drop 1 (fst found)))"
    by (simp add: drop_map [symmetric] del: distinct_map)
  have fst_pairs: "map (kd_data \<circ> fst) pairs = map kd_data (drop 1 (fst found))"
    unfolding pairs_eq by (simp add: o_def)
  have mem: "(nd, d) \<in> set pairs \<Longrightarrow> nd \<in> set (triplet_nodes cloud) \<and> d = sqdist (kd_point nd) ?q"
    for nd d
    unfolding pairs_eq using sub set_drop_subset [of 1 "fst found"] by auto
  from t have "t \<in> set (loop_a cloud a ?pb b pairs)"
    by (simp add: triplet_candidates_def Let_def pairs_def found_def)
  then obtain l1 na da l2 where l: "pairs = l1 @ (na, da) # l2" and da: "da \<noteq> 0"
    and orda: "\<not> (isOrdered cloud \<and> p_index (Point_of_node na) > p_index ?pb)"
    and tc: "t \<in> set (loop_c cloud a ?pb b (Point_of_node na) (kd_data na)
                      (p_div (p_sub ?pb (Point_of_node na)) (norm_p (p_sub ?pb (Point_of_node na)))) l2)"
    using loop_a_member by blast
  obtain nc dc where c: "(nc, dc) \<in> set l2" and dc: "dc \<noteq> 0"
    and ordc: "\<not> (isOrdered cloud \<and> p_index ?pb > p_index (Point_of_node nc))"
    and ia: "point_index_a t = kd_data na" and ib: "point_index_b t = b"
    and ic: "point_index_c t = kd_data nc"
    and dir: "direction t = p_div (p_sub (Point_of_node nc) ?pb) (norm_p (p_sub (Point_of_node nc) ?pb))"
    and err: "error t = 1 - p_dot (p_div (p_sub ?pb (Point_of_node na)) (norm_p (p_sub ?pb (Point_of_node na))))
                          (p_div (p_sub (Point_of_node nc) ?pb) (norm_p (p_sub (Point_of_node nc) ?pb)))"
    and le: "error t \<le> a"
    using loop_c_member [OF tc] by blast
  have na_in: "(na, da) \<in> set pairs" using l by simp
  have nc_in: "(nc, dc) \<in> set pairs" using l c by simp
  note A = mem [OF na_in] and C = mem [OF nc_in]
  note NA = triplet_nodes_member [OF A [THEN conjunct1]]
  note NC = triplet_nodes_member [OF C [THEN conjunct1]]
  have suba: "p_sub ?pb (Point_of_node na) = p_sub ?pb (?pts ! kd_data na)"
    using NA by (simp add: p_sub_Point_of_node_right)
  have subc: "p_sub (Point_of_node nc) ?pb = p_sub (?pts ! kd_data nc) ?pb"
    using NC by (simp add: p_sub_Point_of_node_left)
  have sym: "sqdist v w = sqdist w v" for v w
    by (cases v, cases w) (simp add: sqdist_def algebra_simps)
  have na0: "norm_p (p_sub ?pb (?pts ! kd_data na)) \<noteq> 0"
    using da A NA by (simp add: norm_p_sub_zero_iff sym [of ?q])
  have nc0: "norm_p (p_sub (?pts ! kd_data nc) ?pb) \<noteq> 0"
    using dc C NC by (simp add: norm_p_sub_zero_iff)
  have zero_self: "norm_p (p_sub p p) = 0" for p
    by (simp add: norm_p_def p_sub_def Point3_def)
  have ab: "kd_data na \<noteq> b" using na0 zero_self by auto
  have bc: "b \<noteq> kd_data nc" using nc0 zero_self by auto
  have "distinct (map (kd_data \<circ> fst) (l1 @ (na, da) # l2))"
    using dist fst_pairs l by simp
  then have "kd_data na \<notin> (kd_data \<circ> fst) ` set l2" by simp
  then have ac: "kd_data na \<noteq> kd_data nc" using c by force
  have idxa: "isOrdered cloud \<Longrightarrow> p_index (?pts ! kd_data na) \<le> p_index ?pb"
    using orda NA by (simp add: p_index_Point_of_node)
  have idxc: "isOrdered cloud \<Longrightarrow> p_index ?pb \<le> p_index (?pts ! kd_data nc)"
    using ordc NC by (simp add: p_index_Point_of_node)
  show ?thesis
    unfolding ia ib ic unit_vector_def
    using NA NC na0 nc0 ab bc ac idxa idxc le
    by (simp add: err dir suba subc)
qed

lemma upt4: "[0 ..< 4] = [0, 1, 2, 3]" by (simp add: upt_rec)

lemma knn_line4_1:
  "k_nearest_neighbors (triplet_nodes (line4 ord)) (as_vector (points (line4 ord) ! 1)) 4 =
     ([\<lparr>kd_point = (1, 0, 0), kd_data = 1, kd_index = 1\<rparr>,
       \<lparr>kd_point = (0, 0, 0), kd_data = 0, kd_index = 0\<rparr>,
       \<lparr>kd_point = (2, 0, 0), kd_data = 2, kd_index = 2\<rparr>,
       \<lparr>kd_point = (3, 0, 0), kd_data = 3, kd_index = 3\<rparr>], [0, 1, 1, 4])"
  by (simp add: k_nearest_neighbors_def triplet_nodes_def line4_def Point4_def as_vector_def
      sqdist_def upt4)

lemma sqrt4: "sqrt 4 = 2"
  using real_sqrt_abs [of 2] by simp

lemma cands_line4_1:
  "triplet_candidates (line4 ord) 4 (3 / 100) 1 =
     [\<lparr>point_index_a = 0, point_index_b = 1, point_index_c = 2,
       center = Point3 1 0 0, direction = Point3 1 0 0, error = 0\<rparr>,
      \<lparr>point_index_a = 0, point_index_b = 1, point_index_c = 3,
       center = Point3 (4 / 3) 0 0, direction = Point3 1 0 0, error = 0\<rparr>]"
  unfolding triplet_candidates_def Let_def knn_line4_1
  by (simp add: line4_def Point4_def Point3_def Point_of_node_def Point_of_vector_def isOrdered_def
      p_sub_def p_add_def p_div_def p_dot_def norm_p_def sqrt4 Let_def)

lemma std_sort_spec_key:
  assumes "\<And>xs. mset (srt xs) = mset xs" "\<And>xs. sorted (map key (srt xs))"
  shows "std_sort_spec (\<lambda>x y. (key x :: real) < key y) srt"
  unfolding std_sort_spec_def using assms by (simp add: sorted_map not_less)

lemma std_sort_spec_stable_sort: "std_sort_spec (\<lambda>x y. (key x :: real) < key y) (stable_sort key)"
  by (rule std_sort_spec_key) (simp_all add: stable_sort_def)

lemma triplet_less_eq: "triplet_less = (\<lambda>x y. error x < error y)"
  by (intro ext) (simp add: triplet_less_def)

lemma generate_triplets_concat:
  "generate_triplets std_sort cloud triplets k n a =
     triplets @ concat (map (midpoint_triplets std_sort cloud k n a) [0 ..< length (points cloud)])"
proof -
  have "foldl (\<lambda>ts b. ts @ f b) ts0 bs = ts0 @ concat (map f bs)"
    for f :: "nat \<Rightarrow> triplet list" and ts0 bs
    by (induction bs arbitrary: ts0) auto
  then show ?thesis by (simp add: generate_triplets_def)
qed

text \<open>
  C1: every triplet that \<open>generate_triplets\<close> emits (into an output that was empty at the call)
  has three point indices inside the cloud; its error is 1 minus the scalar product of the
  unit vectors \<open>(b - a) / |b - a|\<close> and \<open>(c - b) / |c - b|\<close> (both norms are non-zero) and is at
  most the tolerance \<open>a\<close>; its direction is \<open>(c - b) / |c - b|\<close> and has norm 1; the three indices
  are pairwise distinct; and if the cloud is ordered, the original indices satisfy
  \<open>a.index \<le> b.index \<le> c.index\<close>.  \<open>std::sort\<close> is any function meeting its contract.
\<close>

theorem C1_generate_triplets_valid:
  assumes "std_sort_spec triplet_less std_sort"
    and "t \<in> set (generate_triplets std_sort cloud [] k n a)"
  shows "point_index_a t < length (points cloud) \<and>
         point_index_b t < length (points cloud) \<and>
         point_index_c t < length (points cloud) \<and>
         norm_p (p_sub (points cloud ! point_index_b t) (points cloud ! point_index_a t)) \<noteq> 0 \<and>
         norm_p (p_sub (points cloud ! point_index_c t) (points cloud ! point_index_b t)) \<noteq> 0 \<and>
         error t = 1 - p_dot (unit_vector (points cloud ! point_index_a t) (points cloud ! point_index_b t))
                             (unit_vector (points cloud ! point_index_b t) (points cloud ! point_index_c t)) \<and>
         error t \<le> a \<and>
         direction t = unit_vector (points cloud ! point_index_b t) (points cloud ! point_index_c t) \<and>
         norm_p (direction t) = 1 \<and>
         point_index_a t \<noteq> point_index_b t \<and> point_index_b t \<noteq> point_index_c t \<and>
         point_index_a t \<noteq> point_index_c t \<and>
         (isOrdered cloud \<longrightarrow>
            p_index (points cloud ! point_index_a t) \<le> p_index (points cloud ! point_index_b t) \<and>
            p_index (points cloud ! point_index_b t) \<le> p_index (points cloud ! point_index_c t))"
proof -
  obtain b where b: "b < length (points cloud)"
    and "t \<in> set (midpoint_triplets std_sort cloud k n a b)"
    using assms(2) by (auto simp: set_generate_triplets)
  then have tc: "t \<in> set (triplet_candidates cloud k a b)"
    using set_midpoint_triplets [OF assms(1)] by blast
  note V = triplet_candidates_valid [OF b tc]
  from V have nz: "norm_p (p_sub (points cloud ! point_index_c t) (points cloud ! point_index_b t)) \<noteq> 0"
    by blast
  from V have d: "direction t = unit_vector (points cloud ! point_index_b t) (points cloud ! point_index_c t)"
    by blast
  from V b have ib: "point_index_b t < length (points cloud)" by simp
  have "norm_p (direction t) = 1"
    unfolding d unit_vector_def by (rule norm_p_unit [OF nz])
  then show ?thesis using V ib by blast
qed

lemma cands_line4_mid: "triplet_candidates (line4 ord) 4 (3 / 100) 1 = [t012, t013]"
  unfolding t012_def t013_def by (rule cands_line4_1)

lemma midpoint_line4_stable:
  "midpoint_triplets (stable_sort error) (line4 ord) 4 2 (3 / 100) 1 = [t012, t013]"
  unfolding midpoint_triplets_def Let_def cands_line4_mid stable_sort_def
  by (simp add: t012_def t013_def)

lemma t012_generated:
  "t012 \<in> set (generate_triplets (stable_sort error) (line4 True) [] 4 2 (3 / 100))"
proof -
  have "(1::nat) \<in> {0 ..< length (points (line4 True))}" by (simp add: line4_def)
  moreover have "t012 \<in> set (midpoint_triplets (stable_sort error) (line4 True) 4 2 (3 / 100) 1)"
    unfolding midpoint_line4_stable by simp
  ultimately show ?thesis unfolding set_generate_triplets by blast
qed

theorem C1_generate_triplets_valid_witness:
  "std_sort_spec triplet_less (stable_sort error) \<and>
   t012 \<in> set (generate_triplets (stable_sort error) (line4 True) [] 4 2 (3 / 100)) \<and>
   isOrdered (line4 True) \<and>
   error t012 \<le> 3 / 100 \<and> norm_p (direction t012) = 1 \<and>
   p_index (points (line4 True) ! point_index_a t012) \<le> p_index (points (line4 True) ! point_index_b t012) \<and>
   p_index (points (line4 True) ! point_index_b t012) \<le> p_index (points (line4 True) ! point_index_c t012)"
proof -
  have s: "std_sort_spec triplet_less (stable_sort error)"
    unfolding triplet_less_eq by (rule std_sort_spec_stable_sort)
  have o: "isOrdered (line4 True)" by (simp add: isOrdered_def line4_def)
  show ?thesis
    using C1_generate_triplets_valid [OF s t012_generated] s t012_generated o by blast
qed

lemma midpoint_line4_stable_1:
  "midpoint_triplets (stable_sort error) (line4 ord) 4 1 (3 / 100) 1 = [t012]"
  unfolding midpoint_triplets_def Let_def cands_line4_mid stable_sort_def
  by (simp add: t012_def t013_def)

lemma stable_drop_line4:
  "drop (min 1 (length (triplet_candidates (line4 ord) 4 (3 / 100) 1)))
        (stable_sort error (triplet_candidates (line4 ord) 4 (3 / 100) 1)) = [t013]"
  unfolding cands_line4_mid stable_sort_def
  by (simp add: t012_def t013_def)

subsection \<open>A midpoint with twenty candidates of equal error\<close>

lemma upt10: "[0 ..< 10] = [0, 1, 2, 3, 4, 5, 6, 7, 8, 9 :: nat]"
  by (simp add: upt_conv_Cons)

lemma nodes_ruler10:
  "triplet_nodes ruler10 =
     [line_node 0 0, line_node 1 1, line_node 6 2, line_node 10 3, line_node 23 4,
      line_node 26 5, line_node 34 6, line_node 41 7, line_node 53 8, line_node 55 9]"
  by (simp add: triplet_nodes_def ruler10_def Point4_def as_vector_def upt10 line_node_def)

lemma knn_ruler10_4:
  "k_nearest_neighbors (triplet_nodes ruler10) (as_vector (points ruler10 ! 4)) 10 =
     ([line_node 23 4, line_node 26 5, line_node 34 6, line_node 10 3, line_node 6 2,
       line_node 41 7, line_node 1 1, line_node 0 0, line_node 53 8, line_node 55 9],
      [0, 9, 121, 169, 289, 324, 484, 529, 900, 1024])"
  unfolding nodes_ruler10
  by (simp add: k_nearest_neighbors_def ruler10_def Point4_def as_vector_def sqdist_def line_node_def)

lemma sqrt_squares:
  "sqrt 9 = 3" "sqrt 121 = 11" "sqrt 169 = 13" "sqrt 289 = 17" "sqrt 324 = 18"
  "sqrt 484 = 22" "sqrt 529 = 23" "sqrt 900 = 30" "sqrt 1024 = 32"
  using real_sqrt_abs [of 3] real_sqrt_abs [of 11] real_sqrt_abs [of 13] real_sqrt_abs [of 17]
    real_sqrt_abs [of 18] real_sqrt_abs [of 22] real_sqrt_abs [of 23] real_sqrt_abs [of 30]
    real_sqrt_abs [of 32]
  by simp_all

lemma cands_ruler10_4:
  "triplet_candidates ruler10 10 (3 / 100) 4 =
     [on_line 5 4 3 (59 / 3) (- 1), on_line 5 4 2 (55 / 3) (- 1), on_line 5 4 1 (50 / 3) (- 1),
      on_line 5 4 0 (49 / 3) (- 1), on_line 6 4 3 (67 / 3) (- 1), on_line 6 4 2 21 (- 1),
      on_line 6 4 1 (58 / 3) (- 1), on_line 6 4 0 19 (- 1), on_line 3 4 7 (74 / 3) 1,
      on_line 3 4 8 (86 / 3) 1, on_line 3 4 9 (88 / 3) 1, on_line 2 4 7 (70 / 3) 1,
      on_line 2 4 8 (82 / 3) 1, on_line 2 4 9 28 1, on_line 7 4 1 (65 / 3) (- 1),
      on_line 7 4 0 (64 / 3) (- 1), on_line 1 4 8 (77 / 3) 1, on_line 1 4 9 (79 / 3) 1,
      on_line 0 4 8 (76 / 3) 1, on_line 0 4 9 26 1]"
  unfolding triplet_candidates_def Let_def knn_ruler10_4
  by (simp add: ruler10_def line_node_def on_line_def Point4_def Point3_def Point_of_node_def
      Point_of_vector_def isOrdered_def p_sub_def p_add_def p_div_def p_dot_def norm_p_def
      sqrt_squares Let_def)

lemma triplet_less_on_line [simp]:
  "triplet_less (on_line ia ib ic cx dx) (on_line ia' ib' ic' cx' dx') = False"
  by (simp add: triplet_less_def on_line_def)

lemma error_on_line [simp]: "error (on_line ia ib ic cx dx) = 0"
  by (simp add: on_line_def)

lemma sorted_cands_ruler10_4:
  "libstdcxx_sort partial_sort triplet_less (triplet_candidates ruler10 10 (3 / 100) 4) =
     [on_line 3 4 9 (88 / 3) 1,
      on_line 0 4 9 26 1, on_line 0 4 8 (76 / 3) 1, on_line 1 4 9 (79 / 3) 1,
      on_line 1 4 8 (77 / 3) 1, on_line 7 4 0 (64 / 3) (- 1), on_line 7 4 1 (65 / 3) (- 1),
      on_line 2 4 9 28 1, on_line 2 4 8 (82 / 3) 1, on_line 2 4 7 (70 / 3) 1,
      on_line 5 4 3 (59 / 3) (- 1),
      on_line 3 4 8 (86 / 3) 1, on_line 3 4 7 (74 / 3) 1, on_line 6 4 0 19 (- 1),
      on_line 6 4 1 (58 / 3) (- 1), on_line 6 4 2 21 (- 1), on_line 6 4 3 (67 / 3) (- 1),
      on_line 5 4 0 (49 / 3) (- 1), on_line 5 4 1 (50 / 3) (- 1), on_line 5 4 2 (55 / 3) (- 1)]"
  unfolding cands_ruler10_4
  by (simp add: libstdcxx_sort_def final_insertion_sort_def unguarded_insertion_sort_def
      insertion_sort_def insertion_step_def move_backward_def unguarded_linear_insert.simps
      introsort_loop.simps unguarded_partition_pivot_def unguarded_partition.simps
      scan_up.simps scan_down.simps move_median_to_first_def iter_swap_def lg.simps Let_def
      upt_conv_Cons)

lemma midpoint_ruler10_libstdcxx:
  "midpoint_triplets (libstdcxx_sort partial_sort triplet_less) ruler10 10 1 (3 / 100) 4
     = [on_line 3 4 9 (88 / 3) 1]"
  unfolding midpoint_triplets_def Let_def sorted_cands_ruler10_4 by simp

lemma stable_take_ruler10:
  "take (min 1 (length (triplet_candidates ruler10 10 (3 / 100) 4)))
        (stable_sort error (triplet_candidates ruler10 10 (3 / 100) 4))
     = [on_line 5 4 3 (59 / 3) (- 1)]"
  unfolding cands_ruler10_4 stable_sort_def by simp

text \<open>With the two candidates of the midpoint 1 of \<open>line4\<close>, the library's sort is its
  insertion sort, which leaves the two in place.\<close>

lemma midpoint_line4_libstdcxx:
  "midpoint_triplets (libstdcxx_sort partial_sort triplet_less) (line4 ord) 4 1 (3 / 100) 1 = [t012]"
  unfolding midpoint_triplets_def Let_def cands_line4_mid
  by (simp add: libstdcxx_sort_def final_insertion_sort_def insertion_sort_def insertion_step_def
      unguarded_linear_insert.simps introsort_loop.simps upt_conv_Cons triplet_less_def
      t012_def t013_def)

text \<open>
  C7, as stated: what is appended for a midpoint is the prefix of length \<open>min n |candidates|\<close> of
  the candidates sorted by error with ties kept in generation order.  \<open>std::sort\<close> does not
  keep ties in generation order.  The midpoint 4 of ten collinear points (\<open>k = 10\<close>, \<open>n = 1\<close>)
  has 20 candidates, all of error 0; the introsort of libstdc++ exchanges the candidate
  generated first with the one generated eleventh, its median-of-three pivot, and the
  midpoint yields this candidate, with the point indices \<open>(3, 4, 9)\<close>, not the one generated
  first, with the point indices \<open>(5, 4, 3)\<close>.  The heapsort of the library is not reached.
\<close>

theorem C7_stable_ties_counterexample:
  "length (triplet_candidates ruler10 10 (3 / 100) 4) = 20 \<and>
   midpoint_triplets (libstdcxx_sort partial_sort_unreached triplet_less) ruler10 10 1 (3 / 100) 4
     = [on_line 3 4 9 (88 / 3) 1] \<and>
   take (min 1 (length (triplet_candidates ruler10 10 (3 / 100) 4)))
        (stable_sort error (triplet_candidates ruler10 10 (3 / 100) 4))
     = [on_line 5 4 3 (59 / 3) (- 1)] \<and>
   [on_line 3 4 9 (88 / 3) 1] \<noteq> [on_line 5 4 3 (59 / 3) (- 1)]"
proof -
  have "length (triplet_candidates ruler10 10 (3 / 100) 4) = 20"
    unfolding cands_ruler10_4 by simp
  moreover have "[on_line 3 4 9 (88 / 3) 1] \<noteq> [on_line 5 4 3 (59 / 3) (- 1)]"
    by (simp add: on_line_def)
  ultimately show ?thesis
    using midpoint_ruler10_libstdcxx [of partial_sort_unreached] stable_take_ruler10 by blast
qed

subsection \<open>The insertion sort of the library is stable\<close>

lemma unguarded_linear_insert_shift:
  assumes "l < length zs"
  shows "unguarded_linear_insert cmp zs v l =
           take (l - length (takeWhile (cmp v) (rev (take l zs)))) zs
           @ v # drop (l - length (takeWhile (cmp v) (rev (take l zs)))) (take l zs)
           @ drop (Suc l) zs"
  using assms
proof (induction cmp zs v l rule: unguarded_linear_insert.induct)
  case (1 cmp zs v l)
  let ?m = "length (takeWhile (cmp v) (rev (take l zs)))"
  show ?case
  proof (cases "0 < l \<and> cmp v (zs ! (l - 1))")
    case False
    have "?m = 0"
    proof (cases l)
      case 0
      then show ?thesis by simp
    next
      case (Suc l')
      then have "take l zs = take l' zs @ [zs ! l']" using "1.prems" by (simp add: take_Suc_conv_app_nth)
      then show ?thesis using False Suc by simp
    qed
    moreover have "unguarded_linear_insert cmp zs v l = zs[l := v]"
      using False by (subst unguarded_linear_insert.simps) auto
    ultimately show ?thesis using "1.prems" by (simp add: upd_conv_take_nth_drop)
  next
    case True
    define zs' where "zs' = zs[l := zs ! (l - 1)]"
    define m' where "m' = length (takeWhile (cmp v) (rev (take (l - 1) zs)))"
    have l1: "l - 1 < length zs'" using "1.prems" by (simp add: zs'_def)
    have t1: "take (l - 1) zs' = take (l - 1) zs" by (simp add: zs'_def)
    have IH: "unguarded_linear_insert cmp zs' v (l - 1) =
           take (l - 1 - m') zs' @ v # drop (l - 1 - m') (take (l - 1) zs) @ drop (Suc (l - 1)) zs'"
      using "1.IH" [OF True l1 [unfolded zs'_def]] unfolding zs'_def [symmetric] t1 m'_def .
    have tl: "take l zs = take (l - 1) zs @ [zs ! (l - 1)]"
      using True "1.prems" take_Suc_conv_app_nth [of "l - 1" zs] by simp
    have "takeWhile (cmp v) (rev (take l zs))
            = zs ! (l - 1) # takeWhile (cmp v) (rev (take (l - 1) zs))"
      unfolding tl using True by simp
    then have m: "?m = Suc m'" by (simp add: m'_def)
    have le: "m' \<le> l - 1"
      using length_takeWhile_le [of "cmp v" "rev (take (l - 1) zs)"] "1.prems"
      by (simp add: m'_def)
    have idx: "l - ?m = l - 1 - m'" unfolding m by simp
    have a: "take (l - 1 - m') zs' = take (l - 1 - m') zs" using True by (simp add: zs'_def)
    have "drop (l - 1 - m') (take l zs) = drop (l - 1 - m') (take (l - 1) zs @ [zs ! (l - 1)])"
      using tl by simp
    also have "\<dots> = drop (l - 1 - m') (take (l - 1) zs) @ [zs ! (l - 1)]"
      using le "1.prems" by simp
    finally have b: "drop (l - 1 - m') (take l zs)
        = drop (l - 1 - m') (take (l - 1) zs) @ [zs ! (l - 1)]" .
    have "zs' = take l zs @ zs ! (l - 1) # drop (Suc l) zs"
      using "1.prems" by (simp add: zs'_def upd_conv_take_nth_drop)
    then have "drop l zs' = drop l (take l zs @ zs ! (l - 1) # drop (Suc l) zs)" by simp
    also have "\<dots> = zs ! (l - 1) # drop (Suc l) zs" using "1.prems" by simp
    finally have c: "drop (Suc (l - 1)) zs' = zs ! (l - 1) # drop (Suc l) zs"
      using True by simp
    have "unguarded_linear_insert cmp zs v l = unguarded_linear_insert cmp zs' v (l - 1)"
      using True unfolding zs'_def by (subst unguarded_linear_insert.simps) simp
    then show ?thesis unfolding IH idx a b c by simp
  qed
qed

lemma sorted_split_at_key:
  fixes key :: "'a \<Rightarrow> 'b :: linorder"
  assumes "sorted (map key S)"
  shows "S = filter (\<lambda>x. key x \<le> key v) S @ filter (\<lambda>x. key v < key x) S"
  using assms
proof (induction S)
  case Nil
  show ?case by simp
next
  case (Cons x S)
  show ?case
  proof (cases "key x \<le> key v")
    case True
    then show ?thesis using Cons by simp
  next
    case False
    then have "\<forall>y \<in> set S. key v < key y" using Cons.prems by auto
    then have "filter (\<lambda>x. key x \<le> key v) S = []" "filter (\<lambda>x. key v < key x) S = S"
      by (auto simp: filter_empty_conv filter_id_conv)
    then show ?thesis using False by simp
  qed
qed

lemma takeWhile_rev_sorted:
  fixes key :: "'a \<Rightarrow> 'b :: linorder"
  assumes "sorted (map key S)"
  shows "takeWhile (\<lambda>x. key v < key x) (rev S) = rev (filter (\<lambda>x. key v < key x) S)"
  using assms
proof (induction S rule: rev_induct)
  case Nil
  show ?case by simp
next
  case (snoc x S)
  have s: "sorted (map key S)" and le: "\<forall>y \<in> set S. key y \<le> key x"
    using snoc.prems by (auto simp: sorted_append)
  show ?case
  proof (cases "key v < key x")
    case True
    then show ?thesis using snoc.IH [OF s] by simp
  next
    case False
    then have "\<forall>y \<in> set S. \<not> key v < key y" using le by auto
    then have "filter (\<lambda>x. key v < key x) S = []" by (auto simp: filter_empty_conv)
    then show ?thesis using False by simp
  qed
qed

text \<open>One step of the insertion sort on a sorted front part \<open>S\<close>: the element \<open>v\<close> goes
  behind the elements of \<open>S\<close> that are not greater, also behind those that are equivalent.\<close>

lemma insertion_step_sorted:
  fixes key :: "'a \<Rightarrow> 'b :: linorder"
  assumes i: "i < length ys" and srt: "sorted (map key (take i ys))"
  shows "insertion_step (\<lambda>x y. key x < key y) 0 ys i =
           filter (\<lambda>x. key x \<le> key (ys ! i)) (take i ys)
           @ ys ! i # filter (\<lambda>x. key (ys ! i) < key x) (take i ys)
           @ drop (Suc i) ys"
proof -
  let ?v = "ys ! i"
  let ?S = "take i ys"
  let ?A = "filter (\<lambda>x. key x \<le> key ?v) ?S"
  let ?B = "filter (\<lambda>x. key ?v < key x) ?S"
  have S: "?S = ?A @ ?B" by (rule sorted_split_at_key [OF srt])
  show ?thesis
  proof (cases "key ?v < key (ys ! 0)")
    case True
    then have i0: "0 < i" by (cases i) auto
    then have "ys ! 0 = ?S ! 0" by simp
    moreover have "\<forall>y \<in> set ?S. key (?S ! 0) \<le> key y"
      using srt i0 i by (auto simp: sorted_iff_nth_mono in_set_conv_nth simp del: nth_take)
    ultimately have all: "\<forall>y \<in> set ?S. key ?v < key y" using True by auto
    then have A: "?A = []" and B: "?B = ?S"
      by (auto simp: filter_empty_conv filter_id_conv)
    have "take (0 + 1) ys = [ys ! 0]" using i by (cases ys) auto
    then have "(move_backward ys 0 i)[0 := ?v] = ?v # ?S @ drop (Suc i) ys"
      by (simp add: move_backward_def)
    then show ?thesis using True unfolding A B by (simp add: insertion_step_def Let_def)
  next
    case False
    let ?m = "length (takeWhile (\<lambda>x. key ?v < key x) (rev ?S))"
    have m: "?m = length ?B" using takeWhile_rev_sorted [OF srt, of ?v] by simp
    have "length ?S = length ?A + length ?B" using S by (metis length_append)
    then have im: "i - ?m = length ?A" using i m by simp
    have a: "take (i - ?m) ys = ?A"
    proof -
      have "take (length ?A) ?S = ?A" using S by (metis append_eq_conv_conj)
      moreover have "length ?A \<le> i" using im by simp
      ultimately show ?thesis unfolding im by (simp add: min_def)
    qed
    have b: "drop (i - ?m) ?S = ?B" unfolding im using S by (metis append_eq_conv_conj)
    have "insertion_step (\<lambda>x y. key x < key y) 0 ys i
            = unguarded_linear_insert (\<lambda>x y. key x < key y) ys ?v i"
      using False by (simp add: insertion_step_def)
    also have "\<dots> = take (i - ?m) ys @ ?v # drop (i - ?m) ?S @ drop (Suc i) ys"
      by (rule unguarded_linear_insert_shift [OF i])
    finally show ?thesis unfolding a b .
  qed
qed

lemma sort_key_snoc:
  fixes key :: "'a \<Rightarrow> 'b :: linorder"
  shows "sort_key key (as @ [v]) =
           filter (\<lambda>x. key x \<le> key v) (sort_key key as)
           @ v # filter (\<lambda>x. key v < key x) (sort_key key as)"
proof (rule properties_for_sort_key)
  let ?S = "sort_key key as"
  let ?A = "filter (\<lambda>x. key x \<le> key v) ?S"
  let ?B = "filter (\<lambda>x. key v < key x) ?S"
  have S: "?S = ?A @ ?B" by (rule sorted_split_at_key) simp
  have "mset ?A + mset ?B = mset ?S" using S by (metis mset_append)
  then show "mset (?A @ v # ?B) = mset (as @ [v])" by simp
  show "sorted (map key (?A @ v # ?B))"
    by (auto simp: sorted_append sorted_filter intro: less_imp_le order_trans)
  fix k assume "k \<in> set (?A @ v # ?B)"
  have st: "filter (\<lambda>x. key k = key x) ?S = filter (\<lambda>x. key k = key x) as"
    using sort_key_stable [of key "key k" as] by (simp add: eq_commute)
  show "filter (\<lambda>x. key k = key x) (?A @ v # ?B) = filter (\<lambda>x. key k = key x) (as @ [v])"
  proof (cases "key k = key v")
    case True
    have "filter (\<lambda>x. key k = key x) ?B = []" using True by (auto simp: filter_empty_conv)
    moreover have "filter (\<lambda>x. key k = key x) ?A = filter (\<lambda>x. key k = key x) ?S"
      using True by (auto intro: filter_cong)
    ultimately show ?thesis using True st by simp
  next
    case False
    have "filter (\<lambda>x. key k = key x) ?S
            = filter (\<lambda>x. key k = key x) ?A @ filter (\<lambda>x. key k = key x) ?B"
      using S by (metis filter_append)
    then show ?thesis using False st by simp
  qed
qed

lemma insertion_loop_sorted:
  fixes key :: "'a \<Rightarrow> 'b :: linorder"
  assumes "1 \<le> n" "n \<le> length xs"
  shows "foldl (insertion_step (\<lambda>x y. key x < key y) 0) xs [0 + 1 ..< n]
           = sort_key key (take n xs) @ drop n xs"
  using assms
proof (induction n)
  case 0
  then show ?case by simp
next
  case (Suc n)
  show ?case
  proof (cases "n = 0")
    case True
    then have "take (Suc n) xs = [xs ! 0]" using Suc.prems by (cases xs) auto
    moreover have "xs = xs ! 0 # drop 1 xs" using Suc.prems by (cases xs) auto
    ultimately show ?thesis using True by simp
  next
    case False
    then have n: "1 \<le> n" "n \<le> length xs" "n < length xs" using Suc.prems by simp_all
    let ?ys = "sort_key key (take n xs) @ drop n xs"
    have IH: "foldl (insertion_step (\<lambda>x y. key x < key y) 0) xs [0 + 1 ..< n] = ?ys"
      by (rule Suc.IH [OF n(1,2)])
    have l: "length (sort_key key (take n xs)) = n" using n by simp
    have ly: "n < length ?ys" using n by simp
    have tk: "take n ?ys = sort_key key (take n xs)" using l by simp
    have v: "?ys ! n = xs ! n" using l n by (simp add: nth_append)
    have dr: "drop (Suc n) ?ys = drop (Suc n) xs" using l by simp
    have srt: "sorted (map key (take n ?ys))" unfolding tk by simp
    have "insertion_step (\<lambda>x y. key x < key y) 0 ?ys n
            = sort_key key (take n xs @ [xs ! n]) @ drop (Suc n) xs"
      unfolding insertion_step_sorted [OF ly srt] tk v dr sort_key_snoc by simp
    also have "take n xs @ [xs ! n] = take (Suc n) xs"
      using n by (simp add: take_Suc_conv_app_nth)
    finally have step: "insertion_step (\<lambda>x y. key x < key y) 0 ?ys n
            = sort_key key (take (Suc n) xs) @ drop (Suc n) xs" .
    have "[0 + 1 ..< Suc n] = [0 + 1 ..< n] @ [n]" using n by simp
    then show ?thesis unfolding IH [symmetric] using step IH by simp
  qed
qed

text \<open>Up to 16 elements \<open>std::sort\<close> of the library is its insertion sort, hence stable.\<close>

lemma libstdcxx_sort_stable:
  assumes "length xs \<le> 16"
  shows "libstdcxx_sort partial_sort (\<lambda>x y. key x < key y) xs = stable_sort key xs"
proof (cases "xs = []")
  case True
  then show ?thesis by (simp add: libstdcxx_sort_def stable_sort_def)
next
  case False
  then have n: "1 \<le> length xs" by (cases xs) auto
  have intro: "introsort_loop partial_sort (\<lambda>x y. key x < key y) xs 0 (length xs)
                 (lg (length xs) * 2) = xs"
    using assms by (subst introsort_loop.simps) simp
  have "libstdcxx_sort partial_sort (\<lambda>x y. key x < key y) xs
          = foldl (insertion_step (\<lambda>x y. key x < key y) 0) xs [0 + 1 ..< length xs]"
    using False assms n
    by (simp add: libstdcxx_sort_def intro final_insertion_sort_def insertion_sort_def)
  also have "\<dots> = sort_key key (take (length xs) xs) @ drop (length xs) xs"
    by (rule insertion_loop_sorted [OF n]) simp
  finally show ?thesis by (simp add: stable_sort_def)
qed

text \<open>
  C7, amended: \<open>generate_triplets\<close> appends, midpoint after midpoint, \<open>min n |candidates|\<close>
  triplets, hence at most \<open>n\<close>; they are listed in ascending error order, and together with the
  candidates left out they are exactly the candidates, none of those left out having a smaller
  error than one that is appended.  Which of several candidates of equal error comes first, or
  is appended at all, is decided by \<open>std::sort\<close>: with the one of libstdc++ the candidates of
  equal error stay in generation order as long as the midpoint has at most 16 candidates.
\<close>

theorem C7_midpoint_cap_sorted:
  assumes "std_sort_spec triplet_less std_sort"
  shows "generate_triplets std_sort cloud triplets k n a
           = triplets @ concat (map (midpoint_triplets std_sort cloud k n a) [0 ..< length (points cloud)]) \<and>
         length (midpoint_triplets std_sort cloud k n a b) = min n (length (triplet_candidates cloud k a b)) \<and>
         length (midpoint_triplets std_sort cloud k n a b) \<le> n \<and>
         sorted (map error (midpoint_triplets std_sort cloud k n a b)) \<and>
         mset (midpoint_triplets std_sort cloud k n a b)
           + mset (drop (min n (length (triplet_candidates cloud k a b)))
                        (std_sort (triplet_candidates cloud k a b)))
           = mset (triplet_candidates cloud k a b) \<and>
         (\<forall>x \<in> set (midpoint_triplets std_sort cloud k n a b).
          \<forall>y \<in> set (drop (min n (length (triplet_candidates cloud k a b)))
                          (std_sort (triplet_candidates cloud k a b))).
            error x \<le> error y) \<and>
         (length (triplet_candidates cloud k a b) \<le> 16 \<longrightarrow>
            midpoint_triplets (libstdcxx_sort partial_sort triplet_less) cloud k n a b
              = take (min n (length (triplet_candidates cloud k a b)))
                     (stable_sort error (triplet_candidates cloud k a b)))"
proof -
  let ?c = "triplet_candidates cloud k a b"
  let ?m = "min n (length ?c)"
  have ms: "mset (std_sort ?c) = mset ?c" using assms by (simp add: std_sort_spec_def)
  then have len: "length (std_sort ?c) = length ?c" by (metis size_mset)
  have srt: "sorted_wrt (\<lambda>x y. error x \<le> error y) (std_sort ?c)"
    using assms by (simp add: std_sort_spec_def triplet_less_def not_less)
  have mid: "midpoint_triplets std_sort cloud k n a b = take ?m (std_sort ?c)"
    by (simp add: midpoint_triplets_def Let_def len)
  have split: "std_sort ?c = take ?m (std_sort ?c) @ drop ?m (std_sort ?c)" by simp
  have 1: "length (take ?m (std_sort ?c)) = ?m" by (simp add: len)
  have 2: "sorted (map error (take ?m (std_sort ?c)))"
    using srt by (simp add: sorted_map sorted_wrt_take)
  have 3: "mset (take ?m (std_sort ?c)) + mset (drop ?m (std_sort ?c)) = mset ?c"
    using ms by (metis split mset_append)
  have 4: "\<forall>x \<in> set (take ?m (std_sort ?c)). \<forall>y \<in> set (drop ?m (std_sort ?c)). error x \<le> error y"
    using srt by (subst (asm) split) (simp only: sorted_wrt_append, blast)
  have 5: "midpoint_triplets (libstdcxx_sort partial_sort triplet_less) cloud k n a b
             = take ?m (stable_sort error ?c)" if "length ?c \<le> 16"
  proof -
    have "libstdcxx_sort partial_sort triplet_less ?c = stable_sort error ?c"
      unfolding triplet_less_eq using that by (rule libstdcxx_sort_stable)
    then show ?thesis by (simp add: midpoint_triplets_def Let_def stable_sort_def)
  qed
  have main: "generate_triplets std_sort cloud triplets k n a
           = triplets @ concat (map (midpoint_triplets std_sort cloud k n a) [0 ..< length (points cloud)]) \<and>
         length (midpoint_triplets std_sort cloud k n a b) = ?m \<and>
         length (midpoint_triplets std_sort cloud k n a b) \<le> n \<and>
         sorted (map error (midpoint_triplets std_sort cloud k n a b)) \<and>
         mset (midpoint_triplets std_sort cloud k n a b) + mset (drop ?m (std_sort ?c)) = mset ?c \<and>
         (\<forall>x \<in> set (midpoint_triplets std_sort cloud k n a b).
          \<forall>y \<in> set (drop ?m (std_sort ?c)). error x \<le> error y)"
    unfolding mid using 1 2 3 4 by (simp add: generate_triplets_concat)
  show ?thesis using main 5 by blast
qed

theorem C7_midpoint_cap_sorted_witness:
  "std_sort_spec triplet_less (stable_sort error) \<and>
   midpoint_triplets (stable_sort error) (line4 False) 4 1 (3 / 100) 1 = [t012] \<and>
   drop (min 1 (length (triplet_candidates (line4 False) 4 (3 / 100) 1)))
        (stable_sort error (triplet_candidates (line4 False) 4 (3 / 100) 1)) = [t013] \<and>
   length [t012] \<le> 1 \<and> error t012 \<le> error t013 \<and>
   length (triplet_candidates (line4 False) 4 (3 / 100) 1) \<le> 16 \<and>
   midpoint_triplets (libstdcxx_sort partial_sort_unreached triplet_less) (line4 False) 4 1 (3 / 100) 1
     = [t012]"
proof -
  have s: "std_sort_spec triplet_less (stable_sort error)"
    unfolding triplet_less_eq by (rule std_sort_spec_stable_sort)
  have l: "length (triplet_candidates (line4 False) 4 (3 / 100) 1) \<le> 16"
    unfolding cands_line4_mid by simp
  have t: "take (min 1 (length (triplet_candidates (line4 False) 4 (3 / 100) 1)))
             (stable_sort error (triplet_candidates (line4 False) 4 (3 / 100) 1)) = [t012]"
    unfolding cands_line4_mid stable_sort_def by (simp add: t012_def t013_def)
  note T = C7_midpoint_cap_sorted [OF s, of "line4 False" "[]" 4 1 "3 / 100" 1 partial_sort_unreached]
  from T l have "midpoint_triplets (libstdcxx_sort partial_sort_unreached triplet_less)
      (line4 False) 4 1 (3 / 100) 1
     = take (min 1 (length (triplet_candidates (line4 False) 4 (3 / 100) 1)))
            (stable_sort error (triplet_candidates (line4 False) 4 (3 / 100) 1))"
    by blast
  then have m: "midpoint_triplets (libstdcxx_sort partial_sort_unreached triplet_less)
      (line4 False) 4 1 (3 / 100) 1 = [t012]"
    unfolding t .
  have rest: "std_sort_spec triplet_less (stable_sort error) \<and>
   midpoint_triplets (stable_sort error) (line4 False) 4 1 (3 / 100) 1 = [t012] \<and>
   drop (min 1 (length (triplet_candidates (line4 False) 4 (3 / 100) 1)))
        (stable_sort error (triplet_candidates (line4 False) 4 (3 / 100) 1)) = [t013] \<and>
   length [t012] \<le> 1 \<and> error t012 \<le> error t013"
    using T s unfolding midpoint_line4_stable_1 stable_drop_line4 by simp
  show ?thesis using rest l m by blast
qed

section \<open>Properties of the smoothing\<close>

lemma accumulate_sum_list: "accumulate l = sum_list l"
proof -
  have "foldl (+) a l = a + sum_list l" for a :: real
    by (induction l arbitrary: a) simp_all
  then show ?thesis by (simp add: accumulate_def)
qed

lemma range_nearest_neighbors_cloud:
  "range_nearest_neighbors (map (\<lambda>p. KdNode_of_point (as_vector p)) (points cloud)) (as_vector p) r
     = map (\<lambda>p. KdNode_of_point (as_vector p)) (neighbours cloud r p)"
  by (simp add: range_nearest_neighbors_def neighbours_def filter_map o_def norm_p_sub
      KdNode_of_point_def)

lemma smoothen_point_centroid:
  "as_vector (smoothen_point (map (\<lambda>p. KdNode_of_point (as_vector p)) (points cloud)) r p)
     = centroid (neighbours cloud r p)"
  unfolding smoothen_point_def Let_def range_nearest_neighbors_cloud
  by (simp add: as_vector_def centroid_def accumulate_sum_list o_def KdNode_of_point_def)

lemma smoothen_point_index:
  "p_index (smoothen_point nodes r p) = p_index p"
  by (simp add: smoothen_point_def Let_def)

lemma self_neighbour:
  assumes "0 \<le> r" "p \<in> set (points cloud)"
  shows "p \<in> set (neighbours cloud r p)"
proof -
  have "norm_p (p_sub p p) = 0" by (simp add: norm_p_def p_sub_def Point3_def)
  then show ?thesis using assms by (simp add: neighbours_def)
qed

lemma centroid_same_coords:
  assumes "ps \<noteq> []" "\<forall>c \<in> set ps. as_vector c = as_vector p"
  shows "centroid ps = as_vector p"
proof -
  have "sum_list (map f ps) = real (length ps) * f p" if "\<forall>c \<in> set ps. f c = f p"
    for f :: "Point \<Rightarrow> real"
    using that by (induction ps) (simp_all add: algebra_simps)
  moreover have "\<forall>c \<in> set ps. p_x c = p_x p" "\<forall>c \<in> set ps. p_y c = p_y p"
    "\<forall>c \<in> set ps. p_z c = p_z p"
    using assms(2) by (auto simp: as_vector_def)
  ultimately show ?thesis using assms(1) by (simp add: centroid_def as_vector_def)
qed

lemma neighbours_zero:
  assumes "c \<in> set (neighbours cloud 0 p)"
  shows "as_vector c = as_vector p"
proof -
  have "sqdist (as_vector c) (as_vector p) \<le> 0"
    using assms by (simp add: neighbours_def norm_p_sub)
  then have "sqdist (as_vector c) (as_vector p) = 0"
    using sqdist_nonneg [of "as_vector c" "as_vector p"] by linarith
  then have "(p_x c - p_x p) * (p_x c - p_x p) + (p_y c - p_y p) * (p_y c - p_y p)
            + (p_z c - p_z p) * (p_z c - p_z p) = 0"
    by (simp add: sqdist_def as_vector_def)
  then have "p_x c - p_x p = 0 \<and> p_y c - p_y p = 0 \<and> p_z c - p_z p = 0"
    by (smt (verit) zero_le_square mult_eq_0_iff add_nonneg_eq_0_iff)
  then show ?thesis by (simp add: as_vector_def)
qed

text \<open>
  C3: for a radius \<open>r \<ge> 0\<close> and an output cloud that is empty at the call, \<open>smoothen_cloud\<close>
  yields a cloud of the same length in which the point at position \<open>i\<close> has as coordinates the
  centroid of the points of the input within Euclidean distance \<open>r\<close> of the input point at
  \<open>i\<close> (a list that contains that point itself, so it is not empty) and keeps that point's
  index; the \<open>ordered\<close> flag is that of the input; for \<open>r = 0\<close> the result is the input cloud.
\<close>

theorem C3_smoothen_cloud:
  assumes "0 \<le> r" "points result_cloud = []" "i < length (points cloud)"
  shows "length (points (smoothen_cloud cloud result_cloud r)) = length (points cloud) \<and>
         points cloud ! i \<in> set (neighbours cloud r (points cloud ! i)) \<and>
         as_vector (points (smoothen_cloud cloud result_cloud r) ! i)
           = centroid (neighbours cloud r (points cloud ! i)) \<and>
         p_index (points (smoothen_cloud cloud result_cloud r) ! i) = p_index (points cloud ! i) \<and>
         isOrdered (smoothen_cloud cloud result_cloud r) = isOrdered cloud \<and>
         (r = 0 \<longrightarrow> smoothen_cloud cloud result_cloud r = cloud)"
proof -
  let ?p = "points cloud ! i"
  have mem: "?p \<in> set (points cloud)" using assms(3) by simp
  have self: "?p \<in> set (neighbours cloud r ?p)" by (rule self_neighbour [OF assms(1) mem])
  show ?thesis
  proof (cases "r = 0")
    case True
    have ne: "neighbours cloud 0 ?p \<noteq> []" using self True by auto
    have "centroid (neighbours cloud 0 ?p) = as_vector ?p"
      by (rule centroid_same_coords [OF ne]) (simp add: neighbours_zero)
    then show ?thesis using True self by (simp add: smoothen_cloud_def)
  next
    case False
    then show ?thesis
      using assms(2,3) self
      by (simp add: smoothen_cloud_def Let_def setOrdered_def isOrdered_def
          smoothen_point_centroid smoothen_point_index)
  qed
qed

lemma neighbours_line4_1:
  "neighbours (line4 True) 1 (points (line4 True) ! 1)
     = [Point4 0 0 0 0, Point4 1 0 0 1, Point4 2 0 0 2]"
  by (simp add: neighbours_def line4_def Point4_def norm_p_def p_sub_def Point3_def sqrt4)

lemma centroid_line4_1:
  "centroid [Point4 0 0 0 0, Point4 1 0 0 1, Point4 2 0 0 2] = (1, 0, 0)"
  by (simp add: centroid_def Point4_def)

theorem C3_smoothen_cloud_witness:
  "(0::real) \<le> 1 \<and> points (PointCloud_new False) = [] \<and> 1 < length (points (line4 True)) \<and>
   length (points (smoothen_cloud (line4 True) (PointCloud_new False) 1)) = 4 \<and>
   neighbours (line4 True) 1 (points (line4 True) ! 1)
     = [Point4 0 0 0 0, Point4 1 0 0 1, Point4 2 0 0 2] \<and>
   as_vector (points (smoothen_cloud (line4 True) (PointCloud_new False) 1) ! 1) = (1, 0, 0) \<and>
   p_index (points (smoothen_cloud (line4 True) (PointCloud_new False) 1) ! 1) = 1 \<and>
   isOrdered (smoothen_cloud (line4 True) (PointCloud_new False) 1) \<and>
   smoothen_cloud (line4 True) (PointCloud_new False) 0 = line4 True"
proof -
  have e: "points (PointCloud_new False) = []" by (simp add: PointCloud_new_def)
  have l: "1 < length (points (line4 True))" by (simp add: line4_def)
  have l4: "length (points (line4 True)) = 4" by (simp add: line4_def)
  have o: "isOrdered (line4 True)" by (simp add: isOrdered_def line4_def)
  have i: "p_index (points (line4 True) ! 1) = 1" by (simp add: line4_def Point4_def)
  have z: "(0::real) \<le> 0" and p: "(0::real) \<le> 1" by simp_all
  note A = C3_smoothen_cloud [OF p e l] and B = C3_smoothen_cloud [OF z e l]
  show ?thesis
    using A B e l o
    unfolding neighbours_line4_1 centroid_line4_1 l4 i
    by simp
qed

section \<open>Properties of the characteristic length\<close>

lemma mset_insort_dbl: "mset (insort_dbl d ds) = add_mset d (mset ds)"
  by (induction ds) simp_all

lemma mset_sort_dbl: "mset (sort_dbl ds) = mset ds"
  unfolding sort_dbl_def by (induction ds) (simp_all add: mset_insort_dbl)

lemma std_nth_element_spec_sort: "std_nth_element_spec (\<lambda>ds n. sort_dbl ds)"
  by (simp add: std_nth_element_spec_def mset_sort_dbl)

lemma knn_single:
  assumes "0 < k"
  shows "k_nearest_neighbors [KdNode_of_point (as_vector p)] (as_vector p) k
     = ([KdNode_of_point (as_vector p)], [0])"
  using assms
  by (cases k) (simp_all add: k_nearest_neighbors_def KdNode_of_point_def sqdist_def as_vector_def)

lemma msd_single:
  assumes "points cloud = [p]"
  shows "compute_mean_square_distance cloud [] k = Inr [NaN]"
proof -
  have kn: "k_nearest_neighbors [KdNode_of_point (as_vector p)] (as_vector p) (k + 1)
     = ([KdNode_of_point (as_vector p)], [0])"
    by (rule knn_single) simp
  have "mean_square_distance [KdNode_of_point (as_vector p)] (k + 1) p = Inr NaN"
    unfolding mean_square_distance_def Let_def kn
    by (simp add: accumulate_def dbl_div_def)
  then show ?thesis
    unfolding compute_mean_square_distance_def Let_def assms
    by (simp add: fbind_def)
qed

text \<open>
  C10: for a cloud of exactly one point, the nearest-neighbour query of
  \<open>compute_mean_square_distance\<close> (with \<open>k = 2\<close>) returns the single distance 0 of the point to
  itself; after its removal the list is empty, the quotient is \<open>0.0 / 0\<close>, that is NaN, and
  NaN is what is stored.  \<open>first_quartile\<close> returns this NaN, its square root is NaN, and the
  check \<open>dnn == 0.0\<close> of the caller does not fire.
\<close>

theorem C10_single_point_quartile_nan:
  assumes "std_nth_element_spec nth_element" "points cloud = [p]"
  shows "snd (k_nearest_neighbors (map (\<lambda>p. KdNode_of_point (as_vector p)) (points cloud))
               (as_vector p) (1 + 1)) = [0] \<and>
         dbl_div (accumulate []) (real (length ([] :: real list))) = NaN \<and>
         compute_mean_square_distance cloud [] 1 = Inr [NaN] \<and>
         first_quartile nth_element cloud = Inr NaN \<and>
         main_dnn nth_element cloud = Inr (NaN, False)"
proof -
  have "mset (nth_element [NaN] 0) = mset [NaN]"
    using assms(1) by (simp add: std_nth_element_spec_def)
  then have ne: "nth_element [NaN] 0 = [NaN]" by (metis mset_single_iff_right mset.simps(1,2))
  have q: "first_quartile nth_element cloud = Inr NaN"
    by (simp add: first_quartile_def msd_single [OF assms(2)] fbind_def ne read_at_def)
  have m: "main_dnn nth_element cloud = Inr (NaN, False)"
    by (simp add: main_dnn_def q fbind_def dbl_is_zero_def)
  have k: "snd (k_nearest_neighbors (map (\<lambda>p. KdNode_of_point (as_vector p)) (points cloud))
               (as_vector p) (1 + 1)) = [0]"
    using knn_single [of "1 + 1" p] assms(2) by simp
  have d: "dbl_div (accumulate []) (real (length ([] :: real list))) = NaN"
    by (simp add: accumulate_def dbl_div_def)
  show ?thesis using k d msd_single [OF assms(2)] q m by blast
qed

theorem C10_single_point_quartile_nan_witness:
  "std_nth_element_spec (\<lambda>ds n. sort_dbl ds) \<and> points single_cloud = [Point4 5 7 0 0] \<and>
   first_quartile (\<lambda>ds n. sort_dbl ds) single_cloud = Inr NaN \<and>
   main_dnn (\<lambda>ds n. sort_dbl ds) single_cloud = Inr (NaN, False)"
proof -
  have p: "points single_cloud = [Point4 5 7 0 0]" by (simp add: single_cloud_def)
  show ?thesis
    using C10_single_point_quartile_nan [OF std_nth_element_spec_sort p] std_nth_element_spec_sort p
    by blast
qed

section \<open>Properties of the gap split\<close>

subsection \<open>Connectivity through an edge list\<close>

lemma adjacent_sym: "(a, b) \<in> adjacent es \<Longrightarrow> (b, a) \<in> adjacent es"
  by (auto simp: adjacent_def)

lemma sym_adjacent: "sym (adjacent es)"
  by (rule symI) (rule adjacent_sym)

lemma connected_sym: "(a, b) \<in> (adjacent es)\<^sup>* \<Longrightarrow> (b, a) \<in> (adjacent es)\<^sup>*"
  using sym_rtrancl [OF sym_adjacent] by (meson symD)

lemma adjacent_Nil: "adjacent [] = {}"
  by (simp add: adjacent_def)

lemma adjacent_snoc:
  "adjacent (es @ [e]) = insert (src e, dest e) (insert (dest e, src e) (adjacent es))"
  by (auto simp: adjacent_def)

lemma adjacent_mono: "set es \<subseteq> set es' \<Longrightarrow> adjacent es \<subseteq> adjacent es'"
  by (auto simp: adjacent_def)

lemma rtrancl_insert_both:
  "(x, y) \<in> (insert (a, b) (insert (b, a) G))\<^sup>* \<longleftrightarrow>
     (x, y) \<in> G\<^sup>* \<or> ((x, a) \<in> G\<^sup>* \<and> (b, y) \<in> G\<^sup>*) \<or> ((x, b) \<in> G\<^sup>* \<and> (a, y) \<in> G\<^sup>*)"
proof -
  have 1: "(u, v) \<in> (insert (b, a) G)\<^sup>* \<longleftrightarrow> (u, v) \<in> G\<^sup>* \<or> ((u, b) \<in> G\<^sup>* \<and> (a, v) \<in> G\<^sup>*)"
    for u v by (simp add: rtrancl_insert)
  have "(x, y) \<in> (insert (a, b) (insert (b, a) G))\<^sup>* \<longleftrightarrow>
          (x, y) \<in> (insert (b, a) G)\<^sup>* \<or>
          ((x, a) \<in> (insert (b, a) G)\<^sup>* \<and> (b, y) \<in> (insert (b, a) G)\<^sup>*)"
    by (simp add: rtrancl_insert)
  also have "\<dots> \<longleftrightarrow>
     (x, y) \<in> G\<^sup>* \<or> ((x, a) \<in> G\<^sup>* \<and> (b, y) \<in> G\<^sup>*) \<or> ((x, b) \<in> G\<^sup>* \<and> (a, y) \<in> G\<^sup>*)"
    unfolding 1 by (meson rtrancl_trans rtrancl.rtrancl_refl)
  finally show ?thesis .
qed

lemma connected_snoc:
  "(x, y) \<in> (adjacent (es @ [e]))\<^sup>* \<longleftrightarrow>
     (x, y) \<in> (adjacent es)\<^sup>* \<or>
     ((x, src e) \<in> (adjacent es)\<^sup>* \<and> (dest e, y) \<in> (adjacent es)\<^sup>*) \<or>
     ((x, dest e) \<in> (adjacent es)\<^sup>* \<and> (src e, y) \<in> (adjacent es)\<^sup>*)"
  unfolding adjacent_snoc by (rule rtrancl_insert_both)

subsection \<open>Forests\<close>

lemma forest_list_Nil: "forest_list []"
  by (simp add: forest_list_def)

lemma forest_list_snoc:
  "forest_list (es @ [e]) \<longleftrightarrow> forest_list es \<and> (src e, dest e) \<notin> (adjacent es)\<^sup>*"
proof
  assume f: "forest_list (es @ [e])"
  have "forest_list es"
    unfolding forest_list_def
  proof (intro allI impI)
    fix pre e' post assume "es = pre @ e' # post"
    then have "es @ [e] = pre @ e' # (post @ [e])" by simp
    then show "(src e', dest e') \<notin> (adjacent pre)\<^sup>*" using f unfolding forest_list_def by blast
  qed
  moreover have "(src e, dest e) \<notin> (adjacent es)\<^sup>*"
    using f unfolding forest_list_def by (metis append.right_neutral append_Cons append_Nil)
  ultimately show "forest_list es \<and> (src e, dest e) \<notin> (adjacent es)\<^sup>*" by blast
next
  assume a: "forest_list es \<and> (src e, dest e) \<notin> (adjacent es)\<^sup>*"
  show "forest_list (es @ [e])"
    unfolding forest_list_def
  proof (intro allI impI)
    fix pre e' post assume eq: "es @ [e] = pre @ e' # post"
    show "(src e', dest e') \<notin> (adjacent pre)\<^sup>*"
    proof (cases post rule: rev_cases)
      case Nil
      then have "pre = es" "e' = e" using eq by simp_all
      then show ?thesis using a by simp
    next
      case (snoc post' l)
      then have "es = pre @ e' # post'" using eq by simp
      then show ?thesis using a unfolding forest_list_def by blast
    qed
  qed
qed

lemma forest_list_filter: "forest_list es \<Longrightarrow> forest_list (filter P es)"
proof (induction es rule: rev_induct)
  case Nil
  then show ?case by simp
next
  case (snoc e es)
  then have f: "forest_list es" and n: "(src e, dest e) \<notin> (adjacent es)\<^sup>*"
    by (simp_all add: forest_list_snoc)
  have "(adjacent (filter P es))\<^sup>* \<subseteq> (adjacent es)\<^sup>*"
    by (intro rtrancl_mono adjacent_mono) simp
  then have "(src e, dest e) \<notin> (adjacent (filter P es))\<^sup>*" using n by blast
  then show ?case using snoc.IH [OF f] by (simp add: forest_list_snoc)
qed

text \<open>In a forest the two ends of an edge are connected through that edge only.\<close>

lemma forest_list_bridge:
  assumes "forest_list es" "(a, b) \<in> adjacent es"
  shows "(a, b) \<notin> (adjacent es - {(a, b), (b, a)})\<^sup>*"
  using assms
proof (induction es arbitrary: a b rule: rev_induct)
  case Nil
  then show ?case by (simp add: adjacent_Nil)
next
  case (snoc f es)
  let ?A = "adjacent es"
  let ?u = "src f" and ?v = "dest f"
  have fe: "forest_list es" and nuv: "(?u, ?v) \<notin> ?A\<^sup>*"
    using snoc.prems(1) by (simp_all add: forest_list_snoc)
  have nvu: "(?v, ?u) \<notin> ?A\<^sup>*" using nuv connected_sym by blast
  show ?case
  proof (cases "(a, b) = (?u, ?v) \<or> (a, b) = (?v, ?u)")
    case True
    have "adjacent (es @ [f]) - {(a, b), (b, a)} \<subseteq> ?A"
      using True by (auto simp: adjacent_snoc)
    then have "(adjacent (es @ [f]) - {(a, b), (b, a)})\<^sup>* \<subseteq> ?A\<^sup>*" by (rule rtrancl_mono)
    then show ?thesis using True nuv nvu by auto
  next
    case False
    then have ab: "(a, b) \<in> ?A" using snoc.prems(2) by (auto simp: adjacent_snoc)
    let ?G = "?A - {(a, b), (b, a)}"
    have IH: "(a, b) \<notin> ?G\<^sup>*" by (rule snoc.IH [OF fe ab])
    have sub: "?G\<^sup>* \<subseteq> ?A\<^sup>*" by (rule rtrancl_mono) blast
    have eq: "adjacent (es @ [f]) - {(a, b), (b, a)} = insert (?u, ?v) (insert (?v, ?u) ?G)"
      using False by (auto simp: adjacent_snoc)
    show ?thesis
    proof
      assume "(a, b) \<in> (adjacent (es @ [f]) - {(a, b), (b, a)})\<^sup>*"
      then consider "(a, b) \<in> ?G\<^sup>*"
        | "(a, ?u) \<in> ?G\<^sup>*" "(?v, b) \<in> ?G\<^sup>*"
        | "(a, ?v) \<in> ?G\<^sup>*" "(?u, b) \<in> ?G\<^sup>*"
        unfolding eq rtrancl_insert_both by blast
      then show False
      proof cases
        case 1
        then show ?thesis using IH by blast
      next
        case 2
        then have "(?u, a) \<in> ?A\<^sup>*" "(b, ?v) \<in> ?A\<^sup>*"
          using sub connected_sym by blast+
        moreover have "(a, b) \<in> ?A\<^sup>*" using ab by blast
        ultimately have "(?u, ?v) \<in> ?A\<^sup>*" by (meson rtrancl_trans)
        then show ?thesis using nuv by blast
      next
        case 3
        then have "(?v, a) \<in> ?A\<^sup>*" "(b, ?u) \<in> ?A\<^sup>*"
          using sub connected_sym by blast+
        moreover have "(a, b) \<in> ?A\<^sup>*" using ab by blast
        ultimately have "(?v, ?u) \<in> ?A\<^sup>*" by (meson rtrancl_trans)
        then show ?thesis using nvu by blast
      qed
    qed
  qed
qed


subsection \<open>Kruskal's algorithm\<close>

lemma groups_inv_init: "groups_inv n [0 ..< n] []"
  by (auto simp: groups_inv_def forest_list_Nil adjacent_Nil)

lemma mst_step_inv:
  assumes inv: "groups_inv n groups acc" and e: "src e < n" "dest e < n"
  shows "groups_inv n (fst (mst_step (groups, acc) e)) (snd (mst_step (groups, acc) e))"
    and "(src e, dest e) \<in> (adjacent (snd (mst_step (groups, acc) e)))\<^sup>*"
    and "snd (mst_step (groups, acc) e) = acc \<or> snd (mst_step (groups, acc) e) = acc @ [e]"
proof -
  let ?C = "(adjacent acc)\<^sup>*"
  let ?ga = "groups ! src e" and ?gb = "groups ! dest e"
  have len: "length groups = n" and f: "forest_list acc"
    and grp: "\<And>a b. a < n \<Longrightarrow> b < n \<Longrightarrow> ((a, b) \<in> ?C) = (groups ! a = groups ! b)"
    using inv by (simp_all add: groups_inv_def)
  show "snd (mst_step (groups, acc) e) = acc \<or> snd (mst_step (groups, acc) e) = acc @ [e]"
    by (simp add: mst_step_def Let_def)
  show "groups_inv n (fst (mst_step (groups, acc) e)) (snd (mst_step (groups, acc) e))"
  proof (cases "?ga = ?gb")
    case True
    then show ?thesis using inv by (simp add: mst_step_def Let_def)
  next
    case False
    let ?groups' = "map (\<lambda>g. if g = ?gb then ?ga else g) groups"
    have st: "mst_step (groups, acc) e = (?groups', acc @ [e])"
      using False by (simp add: mst_step_def Let_def)
    have nc: "(src e, dest e) \<notin> ?C" using False grp e by simp
    have "(?groups' ! a = ?groups' ! b) = ((a, b) \<in> (adjacent (acc @ [e]))\<^sup>*)"
      if "a < n" "b < n" for a b
      using that e len False
      by (simp add: connected_snoc grp)
    then show ?thesis
      unfolding st using len f nc by (simp add: groups_inv_def forest_list_snoc)
  qed
  show "(src e, dest e) \<in> (adjacent (snd (mst_step (groups, acc) e)))\<^sup>*"
  proof (cases "?ga = ?gb")
    case True
    then show ?thesis using grp e by (simp add: mst_step_def Let_def)
  next
    case False
    have "(src e, dest e) \<in> adjacent (acc @ [e])" by (simp add: adjacent_snoc)
    then show ?thesis using False by (auto simp: mst_step_def Let_def)
  qed
qed

lemma mst_fold_inv:
  assumes "groups_inv n groups acc" "\<forall>e \<in> set edges. src e < n \<and> dest e < n"
  shows "groups_inv n (fst (foldl mst_step (groups, acc) edges)) (snd (foldl mst_step (groups, acc) edges)) \<and>
         (\<forall>e \<in> set edges. (src e, dest e) \<in> (adjacent (snd (foldl mst_step (groups, acc) edges)))\<^sup>*) \<and>
         (\<exists>ys. snd (foldl mst_step (groups, acc) edges) = acc @ ys \<and> set ys \<subseteq> set edges)"
  using assms
proof (induction edges arbitrary: groups acc)
  case Nil
  then show ?case by simp
next
  case (Cons e edges)
  let ?st = "mst_step (groups, acc) e"
  have e: "src e < n" "dest e < n" using Cons.prems(2) by simp_all
  have rng': "\<forall>e \<in> set edges. src e < n \<and> dest e < n" using Cons.prems(2) by simp
  note S = mst_step_inv [OF Cons.prems(1) e]
  have f: "foldl mst_step (groups, acc) (e # edges) = foldl mst_step (fst ?st, snd ?st) edges"
    by simp
  note I = Cons.IH [OF S(1) rng']
  obtain ys where ys: "snd (foldl mst_step (fst ?st, snd ?st) edges) = snd ?st @ ys" "set ys \<subseteq> set edges"
    using I by blast
  have "adjacent (snd ?st) \<subseteq> adjacent (snd (foldl mst_step (fst ?st, snd ?st) edges))"
    unfolding ys(1) by (rule adjacent_mono) simp
  then have "(adjacent (snd ?st))\<^sup>* \<subseteq> (adjacent (snd (foldl mst_step (fst ?st, snd ?st) edges)))\<^sup>*"
    by (rule rtrancl_mono)
  then have B: "\<forall>e' \<in> set (e # edges). (src e', dest e') \<in> (adjacent (snd (foldl mst_step (groups, acc) (e # edges))))\<^sup>*"
    unfolding f using S(2) I by auto
  have C: "\<exists>zs. snd (foldl mst_step (groups, acc) (e # edges)) = acc @ zs \<and> set zs \<subseteq> set (e # edges)"
  proof (cases "snd ?st = acc")
    case True
    then show ?thesis unfolding f using ys by auto
  next
    case False
    then have "snd ?st = acc @ [e]" using S(3) by blast
    then have "snd (foldl mst_step (fst ?st, snd ?st) edges) = acc @ (e # ys)" using ys(1) by simp
    then show ?thesis unfolding f using ys(2) by (intro exI [of _ "e # ys"]) auto
  qed
  have A: "groups_inv n (fst (foldl mst_step (groups, acc) (e # edges)))
                (snd (foldl mst_step (groups, acc) (e # edges)))"
    unfolding f using I by blast
  show ?case using A B C by blast
qed


lemma forest_list_remove:
  assumes "forest_list es" "e \<in> set es"
  shows "(src e, dest e) \<notin> (adjacent (filter (\<lambda>x. x \<noteq> e) es))\<^sup>*"
  using assms
proof (induction es rule: rev_induct)
  case Nil
  then show ?case by simp
next
  case (snoc f es)
  let ?A = "adjacent es"
  let ?u = "src f" and ?v = "dest f"
  have fe: "forest_list es" and nuv: "(?u, ?v) \<notin> ?A\<^sup>*"
    using snoc.prems(1) by (simp_all add: forest_list_snoc)
  have nvu: "(?v, ?u) \<notin> ?A\<^sup>*" using nuv connected_sym by blast
  let ?G = "adjacent (filter (\<lambda>x. x \<noteq> e) es)"
  have sub: "?G\<^sup>* \<subseteq> ?A\<^sup>*" by (intro rtrancl_mono adjacent_mono) simp
  show ?case
  proof (cases "e = f")
    case True
    then have "filter (\<lambda>x. x \<noteq> e) (es @ [f]) = filter (\<lambda>x. x \<noteq> e) es" by simp
    then show ?thesis using True nuv sub by auto
  next
    case False
    then have mem: "e \<in> set es" using snoc.prems(2) by simp
    have IH: "(src e, dest e) \<notin> ?G\<^sup>*" by (rule snoc.IH [OF fe mem])
    have eq: "filter (\<lambda>x. x \<noteq> e) (es @ [f]) = filter (\<lambda>x. x \<noteq> e) es @ [f]"
      using False by simp
    have ab: "(src e, dest e) \<in> ?A\<^sup>*" using mem by (auto simp: adjacent_def)
    show ?thesis
    proof
      assume "(src e, dest e) \<in> (adjacent (filter (\<lambda>x. x \<noteq> e) (es @ [f])))\<^sup>*"
      then consider "(src e, dest e) \<in> ?G\<^sup>*"
        | "(src e, ?u) \<in> ?G\<^sup>*" "(?v, dest e) \<in> ?G\<^sup>*"
        | "(src e, ?v) \<in> ?G\<^sup>*" "(?u, dest e) \<in> ?G\<^sup>*"
        unfolding eq connected_snoc by blast
      then show False
      proof cases
        case 1
        then show ?thesis using IH by blast
      next
        case 2
        then have "(?u, src e) \<in> ?A\<^sup>*" "(dest e, ?v) \<in> ?A\<^sup>*"
          using sub connected_sym by blast+
        then have "(?u, ?v) \<in> ?A\<^sup>*" using ab by (meson rtrancl_trans)
        then show ?thesis using nuv by blast
      next
        case 3
        then have "(?v, src e) \<in> ?A\<^sup>*" "(dest e, ?u) \<in> ?A\<^sup>*"
          using sub connected_sym by blast+
        then have "(?v, ?u) \<in> ?A\<^sup>*" using ab by (meson rtrancl_trans)
        then show ?thesis using nvu by blast
      qed
    qed
  qed
qed

subsection \<open>Adjacency lists\<close>

lemma nbrs_snoc:
  "nbrs (es @ [e]) v =
     nbrs es v @ (if src e = v then [dest e] else []) @ (if dest e = v then [src e] else [])"
  by (simp add: nbrs_def)

lemma set_nbrs: "set (nbrs es v) = {w. (v, w) \<in> adjacent es}"
  by (auto simp: nbrs_def adjacent_def split: if_splits)

lemma distinct_nbrs: "forest_list es \<Longrightarrow> distinct (nbrs es v)"
proof (induction es rule: rev_induct)
  case Nil
  then show ?case by (simp add: nbrs_def)
next
  case (snoc e es)
  have fe: "forest_list es" and n: "(src e, dest e) \<notin> (adjacent es)\<^sup>*"
    using snoc.prems by (simp_all add: forest_list_snoc)
  have ne: "src e \<noteq> dest e" using n by auto
  have n1: "(src e, dest e) \<notin> adjacent es" using n by auto
  then have n2: "(dest e, src e) \<notin> adjacent es" using adjacent_sym by blast
  show ?case
    using snoc.IH [OF fe] ne n1 n2 by (auto simp: nbrs_snoc set_nbrs)
qed

lemma length_adj_push: "length (adj_push adj e) = length adj"
  by (simp add: adj_push_def Let_def)

lemma length_create_adj: "length (create_adj adj es) = length adj"
  unfolding create_adj_def by (induction es arbitrary: adj) (simp_all add: length_adj_push)

lemma adj_push_nth:
  assumes "src e < length adj" "dest e < length adj" "v < length adj"
  shows "adj_push adj e ! v =
           adj ! v @ (if src e = v then [dest e] else []) @ (if dest e = v then [src e] else [])"
  using assms by (auto simp: adj_push_def Let_def nth_list_update)

lemma create_adj_nth:
  assumes "\<forall>e \<in> set es. src e < length adj \<and> dest e < length adj" "v < length adj"
  shows "create_adj adj es ! v = adj ! v @ nbrs es v"
  using assms
proof (induction es arbitrary: adj)
  case Nil
  then show ?case by (simp add: create_adj_def nbrs_def)
next
  case (Cons e es)
  have e: "src e < length adj" "dest e < length adj" using Cons.prems(1) by simp_all
  note P = adj_push_nth [OF e Cons.prems(2)]
  have "\<forall>x \<in> set es. src x < length (adj_push adj e) \<and> dest x < length (adj_push adj e)"
    using Cons.prems(1) by (simp add: length_adj_push)
  moreover have "v < length (adj_push adj e)" using Cons.prems(2) by (simp add: length_adj_push)
  ultimately have "create_adj (adj_push adj e) es ! v = adj_push adj e ! v @ nbrs es v"
    by (rule Cons.IH)
  then show ?case using P by (simp add: create_adj_def nbrs_def)
qed

lemma graph_ok_create_adj:
  assumes "forest_list es" "\<forall>e \<in> set es. src e < n \<and> dest e < n"
  shows "graph_ok n (create_adj (replicate n []) es) es"
  using assms create_adj_nth [of es "replicate n []"]
  by (simp add: graph_ok_def length_create_adj)

lemma adjacent_bound:
  assumes "\<forall>e \<in> set es. src e < n \<and> dest e < n" "(v, w) \<in> adjacent es"
  shows "v < n \<and> w < n"
  using assms by (auto simp: adjacent_def)


subsection \<open>Depth-first search in a forest\<close>

lemma restricted_sym:
  "(a, b) \<in> (adjacent es \<inter> A \<times> A)\<^sup>* \<Longrightarrow> (b, a) \<in> (adjacent es \<inter> A \<times> A)\<^sup>*"
proof -
  have "sym (adjacent es \<inter> A \<times> A)"
    by (rule symI) (auto dest: adjacent_sym)
  then show "(a, b) \<in> (adjacent es \<inter> A \<times> A)\<^sup>* \<Longrightarrow> (b, a) \<in> (adjacent es \<inter> A \<times> A)\<^sup>*"
    using sym_rtrancl by (meson symD)
qed

lemma dfs_inv_step:
  assumes g: "graph_ok n adj es"
    and cl: "\<forall>v \<in> V0. \<forall>w. (v, w) \<in> adjacent es \<longrightarrow> w \<in> V0"
    and inv: "dfs_inv n es s V0 (v # st) visited as"
  shows "v < n" and "find (\<lambda>w. \<not> w < length visited) (adj ! v) = None"
    and "dfs_inv n es s V0 (rev (filter (\<lambda>w. \<not> visited[v := True] ! w) (adj ! v)) @ st)
           (visited[v := True]) (as @ [v])"
proof -
  let ?Adj = "adjacent es"
  let ?A = "set as"
  let ?A' = "set (as @ [v])"
  let ?vis1 = "visited[v := True]"
  let ?pushed = "rev (filter (\<lambda>w. \<not> ?vis1 ! w) (adj ! v))"
  have len: "length visited = n"
    and vis: "{v. v < n \<and> visited ! v} = V0 \<union> ?A"
    and dj: "V0 \<inter> ?A = {}" and das: "distinct as"
    and dst: "distinct (v # st)" and bnd: "\<forall>w \<in> set (v # st). w < n"
    and sdj: "set (v # st) \<inter> (V0 \<union> ?A) = {}"
    and start: "if as = [] then v # st = [s]
                else s \<in> ?A \<and> (\<forall>w \<in> set (v # st). \<exists>u \<in> ?A. (u, w) \<in> ?Adj)"
    and path: "\<forall>x \<in> ?A. (s, x) \<in> (?Adj \<inter> ?A \<times> ?A)\<^sup>*"
    and closed: "\<forall>u \<in> ?A. \<forall>w. (u, w) \<in> ?Adj \<longrightarrow> w \<in> ?A \<union> set (v # st)"
    using inv unfolding dfs_inv_def by blast+
  have f: "forest_list es" and rng: "\<forall>e \<in> set es. src e < n \<and> dest e < n"
    and ladj: "length adj = n" and adjv: "\<And>u. u < n \<Longrightarrow> adj ! u = nbrs es u"
    using g unfolding graph_ok_def by blast+
  show vn: "v < n" using bnd by simp
  have vnot: "v \<notin> V0 \<union> ?A" using sdj by auto
  have nbr: "set (adj ! v) = {w. (v, w) \<in> ?Adj}" using adjv [OF vn] by (simp add: set_nbrs)
  have nbr_bound: "\<And>w. (v, w) \<in> ?Adj \<Longrightarrow> w < n" using adjacent_bound [OF rng] by blast
  show "find (\<lambda>w. \<not> w < length visited) (adj ! v) = None"
    unfolding find_None_iff using nbr nbr_bound len by auto
  have vis1: "?vis1 ! w = (w = v \<or> visited ! w)" if "w < n" for w
    using that len vn by (auto simp: nth_list_update)
  have vis1_set: "{w. w < n \<and> ?vis1 ! w} = V0 \<union> ?A'"
    using vis vis1 vn by auto
  have pushed: "set ?pushed = {w. (v, w) \<in> ?Adj \<and> w \<notin> V0 \<union> ?A'}"
  proof -
    have "w \<in> V0 \<union> ?A' \<longleftrightarrow> ?vis1 ! w" if "w < n" for w
      using vis1_set that by blast
    then show ?thesis using nbr nbr_bound by auto
  qed
  have dpushed: "distinct ?pushed"
    using distinct_nbrs [OF f, of v] adjv [OF vn] by simp
  have mono: "(?Adj \<inter> ?A \<times> ?A)\<^sup>* \<subseteq> (?Adj \<inter> ?A' \<times> ?A')\<^sup>*"
    by (rule rtrancl_mono) auto
  have sA': "s \<in> ?A'"
    using start by (cases "as = []") auto
  have path_v: "(s, v) \<in> (?Adj \<inter> ?A' \<times> ?A')\<^sup>*"
  proof (cases "as = []")
    case True
    then have "v = s" using start by simp
    then show ?thesis by simp
  next
    case False
    then obtain u where u: "u \<in> ?A" "(u, v) \<in> ?Adj" using start by auto
    have "(s, u) \<in> (?Adj \<inter> ?A' \<times> ?A')\<^sup>*" using path u(1) mono by blast
    moreover have "(u, v) \<in> ?Adj \<inter> ?A' \<times> ?A'" using u by simp
    ultimately show ?thesis by (rule rtrancl_into_rtrancl)
  qed
  have path': "\<forall>x \<in> ?A'. (s, x) \<in> (?Adj \<inter> ?A' \<times> ?A')\<^sup>*"
    using path mono path_v by auto
  have no_clash: "set ?pushed \<inter> set st = {}"
  proof (rule ccontr)
    assume "set ?pushed \<inter> set st \<noteq> {}"
    then obtain w where w: "w \<in> set ?pushed" "w \<in> set st" by blast
    have vw: "(v, w) \<in> ?Adj" and wA': "w \<notin> ?A'" using w(1) pushed by auto
    have "as \<noteq> []" using start w(2) by (cases "as = []") auto
    then obtain u where u: "u \<in> ?A" "(u, w) \<in> ?Adj" using start w(2) by auto
    have uv: "u \<noteq> v" using u(1) vnot by auto
    have uw: "u \<noteq> w" using u(1) wA' by auto
    have "(v, s) \<in> (?Adj \<inter> ?A' \<times> ?A')\<^sup>*" using path_v by (rule restricted_sym)
    moreover have "(s, u) \<in> (?Adj \<inter> ?A' \<times> ?A')\<^sup>*" using path' u(1) by simp
    ultimately have "(v, u) \<in> (?Adj \<inter> ?A' \<times> ?A')\<^sup>*" by (rule rtrancl_trans)
    moreover have "(?Adj \<inter> ?A' \<times> ?A')\<^sup>* \<subseteq> (?Adj - {(v, w), (w, v)})\<^sup>*"
      by (rule rtrancl_mono) (use wA' in auto)
    ultimately have "(v, u) \<in> (?Adj - {(v, w), (w, v)})\<^sup>*" by blast
    moreover have "(u, w) \<in> ?Adj - {(v, w), (w, v)}" using u(2) uv uw by auto
    ultimately have "(v, w) \<in> (?Adj - {(v, w), (w, v)})\<^sup>*" by (rule rtrancl_into_rtrancl)
    then show False using forest_list_bridge [OF f vw] by blast
  qed
  have dst': "distinct (?pushed @ st)"
    using dpushed dst no_clash by simp
  have bnd': "\<forall>w \<in> set (?pushed @ st). w < n"
    using bnd pushed nbr_bound by auto
  have sdj': "set (?pushed @ st) \<inter> (V0 \<union> ?A') = {}"
    using sdj dst pushed by auto
  have start': "s \<in> ?A' \<and> (\<forall>w \<in> set (?pushed @ st). \<exists>u \<in> ?A'. (u, w) \<in> ?Adj)"
  proof (intro conjI ballI)
    show "s \<in> ?A'" by (rule sA')
    fix w assume "w \<in> set (?pushed @ st)"
    then consider "w \<in> set ?pushed" | "w \<in> set st" by auto
    then show "\<exists>u \<in> ?A'. (u, w) \<in> ?Adj"
    proof cases
      case 1
      then show ?thesis using pushed by auto
    next
      case 2
      then have "as \<noteq> []" using start by (cases "as = []") auto
      then show ?thesis using start 2 by auto
    qed
  qed
  have closed': "\<forall>u \<in> ?A'. \<forall>w. (u, w) \<in> ?Adj \<longrightarrow> w \<in> ?A' \<union> set (?pushed @ st)"
  proof (intro ballI allI impI)
    fix u w assume u: "u \<in> ?A'" and uw: "(u, w) \<in> ?Adj"
    show "w \<in> ?A' \<union> set (?pushed @ st)"
    proof (cases "u = v")
      case False
      then show ?thesis using closed u uw by auto
    next
      case True
      have "w \<notin> V0"
      proof
        assume "w \<in> V0"
        moreover have "(w, v) \<in> ?Adj" using uw True adjacent_sym by blast
        ultimately have "v \<in> V0" using cl by blast
        then show False using vnot by blast
      qed
      then show ?thesis using pushed uw True by auto
    qed
  qed
  show "dfs_inv n es s V0 (?pushed @ st) ?vis1 (as @ [v])"
    unfolding dfs_inv_def
  proof (intro conjI)
    show "length ?vis1 = n" using len by simp
    show "{v. v < n \<and> ?vis1 ! v} = V0 \<union> ?A'" by (rule vis1_set)
    show "V0 \<inter> ?A' = {}" using dj vnot by auto
    show "distinct (as @ [v])" using das vnot by simp
    show "distinct (?pushed @ st)" by (rule dst')
    show "\<forall>w \<in> set (?pushed @ st). w < n" by (rule bnd')
    show "set (?pushed @ st) \<inter> (V0 \<union> ?A') = {}" by (rule sdj')
    show "if as @ [v] = [] then ?pushed @ st = [s]
          else s \<in> ?A' \<and> (\<forall>w \<in> set (?pushed @ st). \<exists>u \<in> ?A'. (u, w) \<in> ?Adj)"
      using start' by simp
    show "\<forall>x \<in> ?A'. (s, x) \<in> (?Adj \<inter> ?A' \<times> ?A')\<^sup>*" by (rule path')
    show "\<forall>u \<in> ?A'. \<forall>w. (u, w) \<in> ?Adj \<longrightarrow> w \<in> ?A' \<union> set (?pushed @ st)" by (rule closed')
  qed
qed


lemma dfs_inv_final:
  assumes rng: "\<forall>e \<in> set es. src e < n \<and> dest e < n"
    and inv: "dfs_inv n es s V0 [] visited as"
  shows "set as = component es n s"
proof -
  let ?Adj = "adjacent es"
  have vis: "{v. v < n \<and> visited ! v} = V0 \<union> set as"
    and start: "if as = [] then [] = [s] else s \<in> set as \<and> (\<forall>w \<in> set []. \<exists>u \<in> set as. (u, w) \<in> ?Adj)"
    and path: "\<forall>x \<in> set as. (s, x) \<in> (?Adj \<inter> set as \<times> set as)\<^sup>*"
    and closed: "\<forall>u \<in> set as. \<forall>w. (u, w) \<in> ?Adj \<longrightarrow> w \<in> set as \<union> set []"
    using inv unfolding dfs_inv_def by blast+
  have s: "s \<in> set as" using start by (cases "as = []") auto
  have bound: "x < n" if "x \<in> set as" for x using vis that by blast
  have "(?Adj \<inter> set as \<times> set as)\<^sup>* \<subseteq> ?Adj\<^sup>*" by (rule rtrancl_mono) blast
  then have 1: "set as \<subseteq> component es n s"
    using path bound by (auto simp: component_def)
  have "w \<in> set as" if "(s, w) \<in> ?Adj\<^sup>*" for w
    using that
  proof (induction rule: rtrancl_induct)
    case base
    then show ?case by (rule s)
  next
    case (step y z)
    then show ?case using closed by auto
  qed
  then have 2: "component es n s \<subseteq> set as" by (auto simp: component_def)
  show ?thesis using 1 2 by blast
qed

lemma dfs_inv_length: "dfs_inv n es s V0 stack visited as \<Longrightarrow> length visited = n"
  unfolding dfs_inv_def by (elim conjE)

lemma graph_ok_length: "graph_ok n adj es \<Longrightarrow> length adj = n"
  unfolding graph_ok_def by (elim conjE)

lemma dfs_loop_correct:
  assumes g: "graph_ok n adj es"
    and cl: "\<forall>v \<in> V0. \<forall>w. (v, w) \<in> adjacent es \<longrightarrow> w \<in> V0"
    and lc: "length cluster = n"
    and inv: "dfs_inv n es s V0 stack visited as"
    and nc: "new_cluster = map ((!) cluster) as"
  shows "\<exists>as' visited'.
           dfs_loop cluster adj stack visited new_cluster = Inr (map ((!) cluster) as', visited') \<and>
           distinct as' \<and> set as' = component es n s \<and> length visited' = n \<and>
           {v. v < n \<and> visited' ! v} = V0 \<union> component es n s"
  using g lc inv nc
proof (induction cluster adj stack visited new_cluster arbitrary: as rule: dfs_loop.induct)
  case (1 cluster adj visited new_cluster)
  have rng: "\<forall>e \<in> set es. src e < n \<and> dest e < n" using "1.prems"(1) unfolding graph_ok_def by (elim conjE)
  have c: "set as = component es n s" by (rule dfs_inv_final [OF rng "1.prems"(3)])
  have "length visited = n" "distinct as" "{v. v < n \<and> visited ! v} = V0 \<union> set as"
    using "1.prems"(3) unfolding dfs_inv_def by blast+
  then have "dfs_loop cluster adj [] visited new_cluster = Inr (map ((!) cluster) as, visited) \<and>
           distinct as \<and> set as = component es n s \<and> length visited = n \<and>
           {v. v < n \<and> visited ! v} = V0 \<union> component es n s"
    using c "1.prems"(4) by (simp add: dfs_loop.simps(1))
  then show ?case by (intro exI [of _ as] exI [of _ visited])
next
  case (2 cluster adj v stack visited new_cluster)
  note g = "2.prems"(1) and lc = "2.prems"(2)
  note S = dfs_inv_step [OF g cl "2.prems"(3)]
  have len: "length visited = n" by (rule dfs_inv_length [OF "2.prems"(3)])
  have ladj: "length adj = n" by (rule graph_ok_length [OF g])
  have guard: "v < length visited \<and> v < length cluster \<and> v < length adj"
    using S(1) len lc ladj by simp
  define visited1 where "visited1 = visited[v := True]"
  define pushed where "pushed = rev (filter (\<lambda>w. \<not> visited1 ! w) (adj ! v))"
  have nc': "new_cluster @ [cluster ! v] = map ((!) cluster) (as @ [v])"
    using "2.prems"(4) by simp
  have inv': "dfs_inv n es s V0 (pushed @ stack) visited1 (as @ [v])"
    unfolding pushed_def visited1_def by (rule S(3))
  have eq: "dfs_loop cluster adj (v # stack) visited new_cluster
      = dfs_loop cluster adj (pushed @ stack) visited1 (new_cluster @ [cluster ! v])"
    by (subst dfs_loop.simps(2)) (simp only: guard S(2) simp_thms if_True option.case Let_def pushed_def visited1_def)
  show ?case
    unfolding eq by (rule "2.IH" [OF guard S(2) visited1_def pushed_def g lc inv' nc'])
qed


subsection \<open>The loop over the vertices\<close>

lemma component_refl: "v < n \<Longrightarrow> v \<in> component es n v"
  by (simp add: component_def)

lemma component_eq:
  assumes "u \<in> component es n v"
  shows "component es n u = component es n v"
proof -
  have vu: "(v, u) \<in> (adjacent es)\<^sup>*" using assms by (simp add: component_def)
  then have uv: "(u, v) \<in> (adjacent es)\<^sup>*" by (rule connected_sym)
  show ?thesis
    unfolding component_def using vu uv by (auto intro: rtrancl_trans)
qed

lemma component_closed:
  assumes "\<forall>e \<in> set es. src e < n \<and> dest e < n" "w \<in> component es n v" "(w, x) \<in> adjacent es"
  shows "x \<in> component es n v"
  using assms adjacent_bound [OF assms(1) assms(3)]
  by (auto simp: component_def intro: rtrancl_into_rtrancl)

lemma dfs_util_correct:
  assumes g: "graph_ok n adj es"
    and cl: "\<forall>v \<in> V0. \<forall>w. (v, w) \<in> adjacent es \<longrightarrow> w \<in> V0"
    and lc: "length cluster = n" and lv: "length visited = n"
    and vis: "{v. v < n \<and> visited ! v} = V0"
    and s: "s < n" "s \<notin> V0"
  shows "\<exists>as' visited'.
           dfs_util [] s visited cluster adj = Inr (map ((!) cluster) as', visited') \<and>
           distinct as' \<and> set as' = component es n s \<and> length visited' = n \<and>
           {v. v < n \<and> visited' ! v} = V0 \<union> component es n s"
proof -
  have inv: "dfs_inv n es s V0 [s] visited []"
    unfolding dfs_inv_def using lv vis s by simp
  show ?thesis
    unfolding dfs_util_def
    by (rule dfs_loop_correct [OF g cl lc inv]) simp
qed

lemma components_loop_correct:
  assumes g: "graph_ok n adj es" and lc: "length cluster = n"
    and lv: "length visited = n" and vis: "{v. v < n \<and> visited ! v} = V0"
    and cl: "\<forall>v \<in> V0. \<forall>w. (v, w) \<in> adjacent es \<longrightarrow> w \<in> V0"
    and vs: "\<forall>v \<in> set vs. v < n" and cover: "\<forall>u<n. u \<in> V0 \<or> u \<in> set vs"
  shows "\<exists>comps.
     components_loop cluster adj min_size n_removed vs visited new_clusters
       = Inr (new_clusters @ map (map ((!) cluster)) comps) \<and>
     (\<forall>c \<in> set comps. distinct c \<and> (\<exists>v<n. v \<notin> V0 \<and> set c = component es n v) \<and>
                       (min_size \<le> length c \<or> n_removed = 0)) \<and>
     (\<forall>v<n. v \<notin> V0 \<and> (min_size \<le> card (component es n v) \<or> n_removed = 0) \<longrightarrow>
             (\<exists>c \<in> set comps. set c = component es n v)) \<and>
     distinct (map set comps)"
  using lv vis cl vs cover
proof (induction vs arbitrary: visited V0 new_clusters)
  case Nil
  have "components_loop cluster adj min_size n_removed [] visited new_clusters
       = Inr (new_clusters @ map (map ((!) cluster)) [])" by simp
  moreover have "\<forall>v<n. v \<in> V0" using Nil.prems(5) by simp
  ultimately show ?case by (intro exI [of _ "[]"]) simp
next
  case (Cons v vs)
  note lv = Cons.prems(1) and vis = Cons.prems(2) and cl = Cons.prems(3)
  have vn: "v < n" and vs: "\<forall>v \<in> set vs. v < n" using Cons.prems(4) by simp_all
  have rng: "\<forall>e \<in> set es. src e < n \<and> dest e < n" using g unfolding graph_ok_def by (elim conjE)
  show ?case
  proof (cases "visited ! v")
    case True
    then have "v \<in> V0" using vis vn by blast
    then have cover': "\<forall>u<n. u \<in> V0 \<or> u \<in> set vs" using Cons.prems(5) by auto
    have "components_loop cluster adj min_size n_removed (v # vs) visited new_clusters
        = components_loop cluster adj min_size n_removed vs visited new_clusters"
      using True by simp
    then show ?thesis using Cons.IH [OF lv vis cl vs cover'] by simp
  next
    case False
    then have vV0: "v \<notin> V0" using vis vn by blast
    obtain as' visited' where
      d: "dfs_util [] v visited cluster adj = Inr (map ((!) cluster) as', visited')"
      and das: "distinct as'" and sas: "set as' = component es n v"
      and lv': "length visited' = n"
      and vis': "{u. u < n \<and> visited' ! u} = V0 \<union> component es n v"
      using dfs_util_correct [OF g cl lc lv vis vn vV0] by blast
    let ?V0' = "V0 \<union> component es n v"
    let ?keep = "min_size \<le> length (map ((!) cluster) as') \<or> n_removed = 0"
    let ?ncs = "if ?keep then new_clusters @ [map ((!) cluster) as'] else new_clusters"
    have cl': "\<forall>u \<in> ?V0'. \<forall>w. (u, w) \<in> adjacent es \<longrightarrow> w \<in> ?V0'"
      using cl component_closed [OF rng] by blast
    have cover': "\<forall>u<n. u \<in> ?V0' \<or> u \<in> set vs"
      using Cons.prems(5) component_refl [OF vn] by auto
    obtain comps where
      r: "components_loop cluster adj min_size n_removed vs visited' ?ncs
            = Inr (?ncs @ map (map ((!) cluster)) comps)"
      and c1: "\<forall>c \<in> set comps. distinct c \<and> (\<exists>u<n. u \<notin> ?V0' \<and> set c = component es n u) \<and>
                       (min_size \<le> length c \<or> n_removed = 0)"
      and c2: "\<forall>u<n. u \<notin> ?V0' \<and> (min_size \<le> card (component es n u) \<or> n_removed = 0) \<longrightarrow>
             (\<exists>c \<in> set comps. set c = component es n u)"
      and c3: "distinct (map set comps)"
      using Cons.IH [OF lv' vis' cl' vs cover', of ?ncs] by blast
    let ?comps = "(if ?keep then [as'] else []) @ comps"
    have step: "components_loop cluster adj min_size n_removed (v # vs) visited new_clusters
        = components_loop cluster adj min_size n_removed vs visited' ?ncs"
      using False d by (simp add: fbind_def Let_def)
    have res: "components_loop cluster adj min_size n_removed (v # vs) visited new_clusters
        = Inr (new_clusters @ map (map ((!) cluster)) ?comps)"
      unfolding step r by simp
    have card: "card (component es n v) = length as'"
      using das sas distinct_card by metis
    have p1: "\<forall>c \<in> set ?comps. distinct c \<and> (\<exists>u<n. u \<notin> V0 \<and> set c = component es n u) \<and>
                       (min_size \<le> length c \<or> n_removed = 0)"
    proof
      fix c assume "c \<in> set ?comps"
      then consider "c = as'" "?keep" | "c \<in> set comps" by (auto split: if_splits)
      then show "distinct c \<and> (\<exists>u<n. u \<notin> V0 \<and> set c = component es n u) \<and>
                       (min_size \<le> length c \<or> n_removed = 0)"
      proof cases
        case 1
        then show ?thesis using das sas vn vV0 by auto
      next
        case 2
        then show ?thesis using c1 by blast
      qed
    qed
    have p2: "\<forall>u<n. u \<notin> V0 \<and> (min_size \<le> card (component es n u) \<or> n_removed = 0) \<longrightarrow>
             (\<exists>c \<in> set ?comps. set c = component es n u)"
    proof (intro allI impI)
      fix u assume un: "u < n" and u: "u \<notin> V0 \<and> (min_size \<le> card (component es n u) \<or> n_removed = 0)"
      show "\<exists>c \<in> set ?comps. set c = component es n u"
      proof (cases "u \<in> component es n v")
        case True
        then have e: "component es n u = component es n v" by (rule component_eq)
        then have "?keep" using u card by simp
        then have "as' \<in> set ?comps" by simp
        then show ?thesis using sas e by blast
      next
        case False
        then obtain c where "c \<in> set comps" "set c = component es n u" using c2 un u by blast
        then show ?thesis by auto
      qed
    qed
    have "set as' \<notin> set (map set comps)"
    proof
      assume "set as' \<in> set (map set comps)"
      then obtain c where c: "c \<in> set comps" "set c = set as'" by auto
      then obtain u where u: "u < n" "u \<notin> ?V0'" "set c = component es n u" using c1 by blast
      have "u \<in> component es n u" using u(1) by (rule component_refl)
      then show False using u c sas by auto
    qed
    then have p3: "distinct (map set ?comps)" using c3 by simp
    show ?thesis using res p1 p2 p3 by (intro exI [of _ ?comps] conjI)
  qed
qed


subsection \<open>The edges and the spanning tree of max_step\<close>

lemma create_edges_all_pairs:
  "create_edges std_sort cloud cluster = std_sort (all_pairs cloud cluster)"
  by (simp add: create_edges_def all_pairs_def Let_def)

lemma all_pairs_member:
  "e \<in> set (all_pairs cloud cluster) \<longleftrightarrow>
     src e < dest e \<and> dest e < length cluster \<and>
     weight e = squared_norm (p_sub (points cloud ! (cluster ! dest e)) (points cloud ! (cluster ! src e)))"
proof
  assume "e \<in> set (all_pairs cloud cluster)"
  then show "src e < dest e \<and> dest e < length cluster \<and>
     weight e = squared_norm (p_sub (points cloud ! (cluster ! dest e)) (points cloud ! (cluster ! src e)))"
    by (auto simp: all_pairs_def)
next
  assume a: "src e < dest e \<and> dest e < length cluster \<and>
     weight e = squared_norm (p_sub (points cloud ! (cluster ! dest e)) (points cloud ! (cluster ! src e)))"
  let ?f = "\<lambda>v1 v2. \<lparr>src = v1, dest = v2,
         weight = squared_norm (p_sub (points cloud ! (cluster ! v2)) (points cloud ! (cluster ! v1)))\<rparr>"
  have e: "e = ?f (src e) (dest e)" using a by simp
  have in_concat: "x \<in> set (concat xss)" if "x \<in> set xs" "xs \<in> set xss"
    for x :: Edge and xs xss using that by auto
  have 1: "?f (src e) (dest e) \<in> set (map (?f (src e)) [src e + 1 ..< length cluster])"
    using a by simp
  have 2: "map (?f (src e)) [src e + 1 ..< length cluster]
        \<in> set (map (\<lambda>v1. map (?f v1) [v1 + 1 ..< length cluster]) [0 ..< length cluster])"
    using a by simp
  have "?f (src e) (dest e) \<in> set (all_pairs cloud cluster)"
    unfolding all_pairs_def by (rule in_concat [OF 1 2])
  then show "e \<in> set (all_pairs cloud cluster)" using e by simp
qed

lemma create_edges_member:
  assumes "std_sort_spec edge_less std_sort"
  shows "e \<in> set (create_edges std_sort cloud cluster) \<longleftrightarrow>
     src e < dest e \<and> dest e < length cluster \<and>
     weight e = squared_norm (p_sub (points cloud ! (cluster ! dest e)) (points cloud ! (cluster ! src e)))"
  unfolding create_edges_all_pairs std_sort_spec_set [OF assms] by (rule all_pairs_member)

lemma mst_properties:
  assumes "\<forall>e \<in> set edges. src e < n \<and> dest e < n"
  shows "forest_list (mst edges [] n)"
    and "set (mst edges [] n) \<subseteq> set edges"
    and "\<forall>e \<in> set edges. (src e, dest e) \<in> (adjacent (mst edges [] n))\<^sup>*"
proof -
  note F = mst_fold_inv [OF groups_inv_init assms]
  from F have "groups_inv n (fst (foldl mst_step ([0 ..< n], []) edges)) (mst edges [] n)"
    unfolding mst_def by (elim conjE)
  then show "forest_list (mst edges [] n)" unfolding groups_inv_def by (elim conjE)
  from F show "\<forall>e \<in> set edges. (src e, dest e) \<in> (adjacent (mst edges [] n))\<^sup>*"
    unfolding mst_def by (elim conjE)
  from F obtain ys where "mst edges [] n = [] @ ys" "set ys \<subseteq> set edges"
    unfolding mst_def by (elim conjE exE)
  then show "set (mst edges [] n) \<subseteq> set edges" by simp
qed

lemma n_removed_deleted:
  "length es - length (remove_edge es dmax) = length (deleted_edges es dmax)"
proof -
  have "length (filter (\<lambda>e. weight e > dmax * dmax) es)
        + length (filter (\<lambda>e. \<not> weight e > dmax * dmax) es) = length es"
    by (rule sum_length_filter_compl)
  then show ?thesis by (simp add: remove_edge_def deleted_edges_def Let_def)
qed


lemma max_step_unfold:
  "max_step std_sort new_clusters cluster cloud dmax min_size =
     components_loop cluster
       (create_adj (replicate (length cluster) []) (remove_edge (max_step_mst std_sort cloud cluster) dmax))
       min_size (length (deleted_edges (max_step_mst std_sort cloud cluster) dmax))
       [0 ..< length cluster] (replicate (length cluster) False) new_clusters"
  by (simp add: max_step_def Let_def max_step_mst_def n_removed_deleted)

lemma max_step_components:
  assumes srt: "std_sort_spec edge_less std_sort" and dK: "distinct cluster"
  shows "\<exists>comps.
     max_step std_sort new_clusters cluster cloud dmax min_size
       = Inr (new_clusters @ map (map ((!) cluster)) comps) \<and>
     (\<forall>c \<in> set comps. distinct c \<and>
        (\<exists>v < length cluster.
           set c = component (remove_edge (max_step_mst std_sort cloud cluster) dmax) (length cluster) v) \<and>
        (min_size \<le> length c \<or> deleted_edges (max_step_mst std_sort cloud cluster) dmax = [])) \<and>
     (\<forall>v < length cluster.
        (min_size \<le> card (component (remove_edge (max_step_mst std_sort cloud cluster) dmax) (length cluster) v)
         \<or> deleted_edges (max_step_mst std_sort cloud cluster) dmax = []) \<longrightarrow>
        (\<exists>c \<in> set comps.
           set c = component (remove_edge (max_step_mst std_sort cloud cluster) dmax) (length cluster) v)) \<and>
     distinct (map set comps) \<and>
     (\<forall>c \<in> set comps. \<forall>e \<in> set (deleted_edges (max_step_mst std_sort cloud cluster) dmax).
        \<not> (cluster ! src e \<in> set (map ((!) cluster) c) \<and> cluster ! dest e \<in> set (map ((!) cluster) c)))"
proof -
  let ?n = "length cluster"
  let ?edges = "create_edges std_sort cloud cluster"
  let ?M = "max_step_mst std_sort cloud cluster"
  let ?P = "remove_edge ?M dmax"
  let ?D = "deleted_edges ?M dmax"
  have rng: "\<forall>e \<in> set ?edges. src e < ?n \<and> dest e < ?n"
    using create_edges_member [OF srt] by auto
  have fM: "forest_list ?M" and sM: "set ?M \<subseteq> set ?edges"
    unfolding max_step_mst_def using mst_properties [OF rng] by blast+
  have P_def: "?P = filter (\<lambda>e. \<not> weight e > dmax * dmax) ?M"
    by (simp add: remove_edge_def Let_def)
  have fP: "forest_list ?P" unfolding P_def by (rule forest_list_filter [OF fM])
  have rP: "\<forall>e \<in> set ?P. src e < ?n \<and> dest e < ?n"
    using rng sM unfolding P_def by auto
  have g: "graph_ok ?n (create_adj (replicate ?n []) ?P) ?P"
    by (rule graph_ok_create_adj [OF fP rP])
  have L: "\<exists>comps.
     components_loop cluster (create_adj (replicate ?n []) ?P) min_size (length ?D)
         [0 ..< ?n] (replicate ?n False) new_clusters
       = Inr (new_clusters @ map (map ((!) cluster)) comps) \<and>
     (\<forall>c \<in> set comps. distinct c \<and> (\<exists>v < ?n. v \<notin> {} \<and> set c = component ?P ?n v) \<and>
                       (min_size \<le> length c \<or> length ?D = 0)) \<and>
     (\<forall>v < ?n. v \<notin> {} \<and> (min_size \<le> card (component ?P ?n v) \<or> length ?D = 0) \<longrightarrow>
             (\<exists>c \<in> set comps. set c = component ?P ?n v)) \<and>
     distinct (map set comps)"
    by (rule components_loop_correct [OF g]) simp_all
  then obtain comps where
    r: "components_loop cluster (create_adj (replicate ?n []) ?P) min_size (length ?D)
         [0 ..< ?n] (replicate ?n False) new_clusters
       = Inr (new_clusters @ map (map ((!) cluster)) comps)"
    and c1: "\<forall>c \<in> set comps. distinct c \<and> (\<exists>v < ?n. v \<notin> {} \<and> set c = component ?P ?n v) \<and>
                       (min_size \<le> length c \<or> length ?D = 0)"
    and c2: "\<forall>v < ?n. v \<notin> {} \<and> (min_size \<le> card (component ?P ?n v) \<or> length ?D = 0) \<longrightarrow>
             (\<exists>c \<in> set comps. set c = component ?P ?n v)"
    and c3: "distinct (map set comps)"
    by (elim exE conjE)
  have p0: "max_step std_sort new_clusters cluster cloud dmax min_size
       = Inr (new_clusters @ map (map ((!) cluster)) comps)"
    unfolding max_step_unfold by (rule r)
  have p1: "\<forall>c \<in> set comps. distinct c \<and> (\<exists>v < ?n. set c = component ?P ?n v) \<and>
              (min_size \<le> length c \<or> ?D = [])"
    using c1 by auto
  have p2: "\<forall>v < ?n. (min_size \<le> card (component ?P ?n v) \<or> ?D = []) \<longrightarrow>
              (\<exists>c \<in> set comps. set c = component ?P ?n v)"
    using c2 by auto
  have p4: "\<forall>c \<in> set comps. \<forall>e \<in> set ?D.
        \<not> (cluster ! src e \<in> set (map ((!) cluster) c) \<and> cluster ! dest e \<in> set (map ((!) cluster) c))"
  proof (intro ballI notI)
    fix c e assume c: "c \<in> set comps" and e: "e \<in> set ?D"
      and both: "cluster ! src e \<in> set (map ((!) cluster) c) \<and> cluster ! dest e \<in> set (map ((!) cluster) c)"
    obtain v where v: "v < ?n" "set c = component ?P ?n v" using c1 c by blast
    have eM: "e \<in> set ?M" and eP: "e \<notin> set ?P"
      using e unfolding deleted_edges_def P_def by auto
    have eb: "src e < ?n" "dest e < ?n" using eM sM rng by auto
    have cb: "\<And>x. x \<in> set c \<Longrightarrow> x < ?n" using v(2) by (auto simp: component_def)
    have inj: "cluster ! x = cluster ! y \<Longrightarrow> x = y" if "x < ?n" "y < ?n" for x y
      using dK that nth_eq_iff_index_eq by blast
    have "src e \<in> set c" "dest e \<in> set c"
      using both eb cb inj by auto
    then have "(v, src e) \<in> (adjacent ?P)\<^sup>*" "(v, dest e) \<in> (adjacent ?P)\<^sup>*"
      using v(2) by (auto simp: component_def)
    then have "(src e, dest e) \<in> (adjacent ?P)\<^sup>*"
      using connected_sym rtrancl_trans by meson
    moreover have "(adjacent ?P)\<^sup>* \<subseteq> (adjacent (filter (\<lambda>x. x \<noteq> e) ?M))\<^sup>*"
    proof (intro rtrancl_mono adjacent_mono)
      show "set ?P \<subseteq> set (filter (\<lambda>x. x \<noteq> e) ?M)" using eP unfolding P_def by auto
    qed
    ultimately have "(src e, dest e) \<in> (adjacent (filter (\<lambda>x. x \<noteq> e) ?M))\<^sup>*" by blast
    then show False using forest_list_remove [OF fM eM] by blast
  qed
  show ?thesis
    using p0 p1 p2 c3 p4 by (intro exI [of _ comps] conjI)
qed



lemma gap_edges:
  "create_edges (stable_sort weight) gap_cloud [0, 1, 2, 3] =
     [\<lparr>src = 0, dest = 1, weight = 1\<rparr>, \<lparr>src = 2, dest = 3, weight = 1\<rparr>,
      \<lparr>src = 1, dest = 2, weight = 16\<rparr>, \<lparr>src = 0, dest = 2, weight = 25\<rparr>,
      \<lparr>src = 1, dest = 3, weight = 25\<rparr>, \<lparr>src = 0, dest = 3, weight = 36\<rparr>]"
  by (simp add: create_edges_def stable_sort_def gap_cloud_def Point4_def Point3_def p_sub_def
      squared_norm_def upt_rec Let_def)

lemma gap_mst:
  "max_step_mst (stable_sort weight) gap_cloud [0, 1, 2, 3] =
     [\<lparr>src = 0, dest = 1, weight = 1\<rparr>, \<lparr>src = 2, dest = 3, weight = 1\<rparr>,
      \<lparr>src = 1, dest = 2, weight = 16\<rparr>]"
  unfolding max_step_mst_def gap_edges
  by (simp add: mst_def mst_step_def Let_def upt_rec)

lemma gap_max_step:
  "max_step (stable_sort weight) [] [0, 1, 2, 3] gap_cloud 2 2 = Inr [[0, 1], [2, 3]]"
  unfolding max_step_unfold gap_mst
  by (simp add: remove_edge_def deleted_edges_def create_adj_def adj_push_def Let_def upt_rec
      dfs_util_def dfs_loop.simps fbind_def)


lemma forest_list_distinct: "forest_list es \<Longrightarrow> distinct es"
proof (induction es rule: rev_induct)
  case Nil
  then show ?case by simp
next
  case (snoc f es)
  have fe: "forest_list es" and n: "(src f, dest f) \<notin> (adjacent es)\<^sup>*"
    using snoc.prems by (simp_all add: forest_list_snoc)
  have "f \<notin> set es"
  proof
    assume "f \<in> set es"
    then have "(src f, dest f) \<in> adjacent es" by (auto simp: adjacent_def)
    then show False using n by blast
  qed
  then show ?case using snoc.IH [OF fe] by simp
qed

lemma max_step_mst_spanning_tree:
  assumes srt: "std_sort_spec edge_less std_sort"
  shows "spanning_tree (length cluster) (create_edges std_sort cloud cluster)
           (max_step_mst std_sort cloud cluster)"
proof -
  let ?n = "length cluster"
  let ?edges = "create_edges std_sort cloud cluster"
  let ?M = "max_step_mst std_sort cloud cluster"
  have rng: "\<forall>e \<in> set ?edges. src e < ?n \<and> dest e < ?n"
    using create_edges_member [OF srt] by auto
  have fM: "forest_list ?M" and sM: "set ?M \<subseteq> set ?edges"
    and cM: "\<forall>e \<in> set ?edges. (src e, dest e) \<in> (adjacent ?M)\<^sup>*"
    unfolding max_step_mst_def using mst_properties [OF rng] by blast+
  have lt: "(u, w) \<in> (adjacent ?M)\<^sup>*" if "u < w" "w < ?n" for u w
  proof -
    let ?e = "\<lparr>src = u, dest = w,
        weight = squared_norm (p_sub (points cloud ! (cluster ! w)) (points cloud ! (cluster ! u)))\<rparr>"
    have "?e \<in> set ?edges" using that by (simp add: create_edges_member [OF srt])
    then show ?thesis using cM by fastforce
  qed
  have conn: "\<forall>u < ?n. \<forall>w < ?n. (u, w) \<in> (adjacent ?M)\<^sup>*"
  proof (intro allI impI)
    fix u w assume "u < ?n" "w < ?n"
    then consider "u < w" | "u = w" | "w < u" by linarith
    then show "(u, w) \<in> (adjacent ?M)\<^sup>*"
    proof cases
      case 1
      then show ?thesis using lt \<open>w < ?n\<close> by blast
    next
      case 2
      then show ?thesis by simp
    next
      case 3
      then have "(w, u) \<in> (adjacent ?M)\<^sup>*" using lt \<open>u < ?n\<close> by blast
      then show ?thesis by (rule connected_sym)
    qed
  qed
  show ?thesis
    unfolding spanning_tree_def
    using forest_list_distinct [OF fM] sM conn forest_list_remove [OF fM] by blast
qed


subsection \<open>Minimality of the spanning tree\<close>

lemma mst_fold_light:
  assumes "groups_inv n groups acc" "\<forall>e \<in> set edges. src e < n \<and> dest e < n"
    and "sorted_wrt (\<lambda>x y. weight x \<le> weight y) edges"
    and "\<forall>x \<in> set acc. \<forall>e \<in> set edges. weight x \<le> weight e"
  shows "\<forall>e \<in> set edges.
           (src e, dest e) \<in> (adjacent (filter (\<lambda>x. weight x \<le> weight e)
                                    (snd (foldl mst_step (groups, acc) edges))))\<^sup>*"
  using assms
proof (induction edges arbitrary: groups acc)
  case Nil
  then show ?case by simp
next
  case (Cons e edges)
  let ?st = "mst_step (groups, acc) e"
  let ?final = "snd (foldl mst_step (fst ?st, snd ?st) edges)"
  have e: "src e < n" "dest e < n" using Cons.prems(2) by simp_all
  have rng': "\<forall>e \<in> set edges. src e < n \<and> dest e < n" using Cons.prems(2) by simp
  have srt': "sorted_wrt (\<lambda>x y. weight x \<le> weight y) edges" using Cons.prems(3) by simp
  have le_e: "\<forall>e' \<in> set edges. weight e \<le> weight e'" using Cons.prems(3) by simp
  note S = mst_step_inv [OF Cons.prems(1) e]
  have acc_le: "\<forall>x \<in> set (snd ?st). weight x \<le> weight e"
    using S(3) Cons.prems(4) by auto
  have light': "\<forall>x \<in> set (snd ?st). \<forall>e' \<in> set edges. weight x \<le> weight e'"
    using acc_le le_e by fastforce
  have f: "foldl mst_step (groups, acc) (e # edges) = foldl mst_step (fst ?st, snd ?st) edges"
    by simp
  note I = Cons.IH [OF S(1) rng' srt' light']
  obtain ys where ys: "?final = snd ?st @ ys"
    using mst_fold_inv [OF S(1) rng'] by blast
  have "set (snd ?st) \<subseteq> set (filter (\<lambda>x. weight x \<le> weight e) ?final)"
    unfolding ys using acc_le by auto
  then have "(adjacent (snd ?st))\<^sup>* \<subseteq> (adjacent (filter (\<lambda>x. weight x \<le> weight e) ?final))\<^sup>*"
    by (intro rtrancl_mono adjacent_mono)
  then have "(src e, dest e) \<in> (adjacent (filter (\<lambda>x. weight x \<le> weight e) ?final))\<^sup>*"
    using S(2) by blast
  then show ?case unfolding f using I by simp
qed

lemma std_sort_spec_sorted:
  assumes "std_sort_spec edge_less std_sort"
  shows "sorted_wrt (\<lambda>x y. weight x \<le> weight y) (std_sort es)"
  using assms by (simp add: std_sort_spec_def edge_less_def not_less)

lemma mst_light:
  assumes rng: "\<forall>e \<in> set edges. src e < n \<and> dest e < n"
    and srt: "sorted_wrt (\<lambda>x y. weight x \<le> weight y) edges"
    and e: "e \<in> set edges" "weight e \<le> t"
  shows "(src e, dest e) \<in> (adjacent (filter (\<lambda>x. weight x \<le> t) (mst edges [] n)))\<^sup>*"
proof -
  have "(src e, dest e) \<in> (adjacent (filter (\<lambda>x. weight x \<le> weight e) (mst edges [] n)))\<^sup>*"
    unfolding mst_def using mst_fold_light [OF groups_inv_init rng srt] e(1) by simp
  moreover have "(adjacent (filter (\<lambda>x. weight x \<le> weight e) (mst edges [] n)))\<^sup>*
      \<subseteq> (adjacent (filter (\<lambda>x. weight x \<le> t) (mst edges [] n)))\<^sup>*"
    by (intro rtrancl_mono adjacent_mono) (use e(2) in auto)
  ultimately show ?thesis by blast
qed


lemma merge_card:
  assumes "ga \<in> set g" "gb \<in> set g" "ga \<noteq> gb"
  shows "card (set (map (\<lambda>x. if x = gb then ga else x) g)) + 1 = card (set g)"
proof -
  have eq: "set (map (\<lambda>x. if x = gb then ga else x) g) = set g - {gb}"
    using assms by auto
  have "Suc (card (set g - {gb})) = card (set g)"
    by (rule card_Suc_Diff1) (use assms(2) in simp_all)
  then show ?thesis unfolding eq by simp
qed

lemma forest_groups:
  assumes "forest_list F" "\<forall>e \<in> set F. src e < n \<and> dest e < n"
  shows "\<exists>g. groups_inv n g F \<and> card (set g) + length F = n"
  using assms
proof (induction F rule: rev_induct)
  case Nil
  have "groups_inv n [0 ..< n] []" by (rule groups_inv_init)
  moreover have "card (set [0 ..< n]) + length ([] :: Edge list) = n" by simp
  ultimately show ?case by blast
next
  case (snoc e F)
  have fF: "forest_list F" and nc: "(src e, dest e) \<notin> (adjacent F)\<^sup>*"
    using snoc.prems(1) by (simp_all add: forest_list_snoc)
  have e: "src e < n" "dest e < n" and rF: "\<forall>e \<in> set F. src e < n \<and> dest e < n"
    using snoc.prems(2) by simp_all
  obtain g where g: "groups_inv n g F" and c: "card (set g) + length F = n"
    using snoc.IH [OF fF rF] by blast
  have len: "length g = n" using g unfolding groups_inv_def by (elim conjE)
  have ne: "g ! src e \<noteq> g ! dest e"
    using g nc e unfolding groups_inv_def by blast
  then have st: "mst_step (g, F) e = (map (\<lambda>x. if x = g ! dest e then g ! src e else x) g, F @ [e])"
    by (simp add: mst_step_def Let_def)
  have inv': "groups_inv n (map (\<lambda>x. if x = g ! dest e then g ! src e else x) g) (F @ [e])"
    using mst_step_inv(1) [OF g e] unfolding st by simp
  have "card (set (map (\<lambda>x. if x = g ! dest e then g ! src e else x) g)) + 1 = card (set g)"
    by (rule merge_card) (use e len ne in auto)
  then have "card (set (map (\<lambda>x. if x = g ! dest e then g ! src e else x) g)) + length (F @ [e]) = n"
    using c by simp
  then show ?case using inv' by blast
qed

lemma classes_mono:
  assumes l1: "length g1 = n" and l2: "length g2 = n"
    and imp: "\<forall>a<n. \<forall>b<n. g1 ! a = g1 ! b \<longrightarrow> g2 ! a = g2 ! b"
  shows "card (set g2) \<le> card (set g1)"
proof -
  define f where "f y = g2 ! (SOME a. a < n \<and> g1 ! a = y)" for y
  have "set g2 \<subseteq> f ` set g1"
  proof
    fix y assume "y \<in> set g2"
    then obtain a where a: "a < n" "g2 ! a = y" using l2 by (auto simp: in_set_conv_nth)
    let ?a' = "SOME a'. a' < n \<and> g1 ! a' = g1 ! a"
    have "?a' < n \<and> g1 ! ?a' = g1 ! a"
      by (rule someI [of "\<lambda>a'. a' < n \<and> g1 ! a' = g1 ! a" a]) (use a in simp)
    then have "g2 ! ?a' = g2 ! a" using imp a(1) by blast
    then have "f (g1 ! a) = y" using a(2) by (simp add: f_def)
    moreover have "g1 ! a \<in> set g1" using a(1) l1 by simp
    ultimately show "y \<in> f ` set g1" by blast
  qed
  then have "card (set g2) \<le> card (f ` set g1)" by (intro card_mono) simp_all
  also have "\<dots> \<le> card (set g1)" by (rule card_image_le) simp
  finally show ?thesis .
qed

text \<open>A forest whose vertices another edge list connects has at most as many edges as a
  forest inside that list's connectivity.\<close>

lemma forest_size_le:
  assumes f1: "forest_list F1" and r1: "\<forall>e \<in> set F1. src e < n \<and> dest e < n"
    and f2: "forest_list F2" and r2: "\<forall>e \<in> set F2. src e < n \<and> dest e < n"
    and sub: "\<forall>e \<in> set F1. (src e, dest e) \<in> (adjacent F2)\<^sup>*"
  shows "length F1 \<le> length F2"
proof -
  obtain g1 where g1: "groups_inv n g1 F1" and c1: "card (set g1) + length F1 = n"
    using forest_groups [OF f1 r1] by blast
  obtain g2 where g2: "groups_inv n g2 F2" and c2: "card (set g2) + length F2 = n"
    using forest_groups [OF f2 r2] by blast
  have "adjacent F1 \<subseteq> (adjacent F2)\<^sup>*"
    using sub connected_sym by (auto simp: adjacent_def)
  then have incl: "(adjacent F1)\<^sup>* \<subseteq> (adjacent F2)\<^sup>*" by (rule rtrancl_subset_rtrancl)
  have l1: "length g1 = n" and l2: "length g2 = n"
    and e1: "\<And>a b. a < n \<Longrightarrow> b < n \<Longrightarrow> (g1 ! a = g1 ! b) = ((a, b) \<in> (adjacent F1)\<^sup>*)"
    and e2: "\<And>a b. a < n \<Longrightarrow> b < n \<Longrightarrow> (g2 ! a = g2 ! b) = ((a, b) \<in> (adjacent F2)\<^sup>*)"
    using g1 g2 unfolding groups_inv_def by blast+
  have "card (set g2) \<le> card (set g1)"
    by (rule classes_mono [OF l1 l2]) (use e1 e2 incl in blast)
  then show ?thesis using c1 c2 by linarith
qed


lemma dominance_sorted:
  fixes xs ys :: "real list"
  assumes sx: "sorted xs" and sy: "sorted ys" and len: "length xs = length ys"
    and dom: "\<forall>t. length (filter (\<lambda>y. y \<le> t) ys) \<le> length (filter (\<lambda>x. x \<le> t) xs)"
    and i: "i < length xs"
  shows "xs ! i \<le> ys ! i"
proof (rule ccontr)
  assume "\<not> xs ! i \<le> ys ! i"
  then have gt: "ys ! i < xs ! i" by simp
  let ?t = "ys ! i"
  let ?P = "\<lambda>z :: real. z \<le> ?t"
  have "\<forall>y \<in> set (take (Suc i) ys). ?P y"
  proof
    fix y assume "y \<in> set (take (Suc i) ys)"
    then obtain j where j: "j < Suc i" "j < length ys" "y = ys ! j"
      by (auto simp: in_set_conv_nth)
    then show "?P y" using sorted_nth_mono [OF sy, of j i] i len by simp
  qed
  then have "filter ?P (take (Suc i) ys) = take (Suc i) ys" by simp
  then have "length (filter ?P (take (Suc i) ys)) = Suc i" using i len by simp
  moreover have "length (filter ?P ys)
      = length (filter ?P (take (Suc i) ys)) + length (filter ?P (drop (Suc i) ys))"
    by (metis append_take_drop_id filter_append length_append)
  ultimately have cy: "Suc i \<le> length (filter ?P ys)" by simp
  have "\<forall>x \<in> set (drop i xs). \<not> ?P x"
  proof
    fix x assume "x \<in> set (drop i xs)"
    then obtain j where j: "j < length xs - i" "x = xs ! (i + j)"
      by (auto simp: in_set_conv_nth)
    then have "xs ! i \<le> x" using sorted_nth_mono [OF sx, of i "i + j"] by simp
    then show "\<not> ?P x" using gt by simp
  qed
  then have "filter ?P (drop i xs) = []" by simp
  moreover have "length (filter ?P xs)
      = length (filter ?P (take i xs)) + length (filter ?P (drop i xs))"
    by (metis append_take_drop_id filter_append length_append)
  moreover have "length (filter ?P (take i xs)) \<le> i"
    using length_filter_le [of ?P "take i xs"] by simp
  ultimately have cx: "length (filter ?P xs) \<le> i" by simp
  show False using dom cx cy by (meson le_trans not_less_eq_eq)
qed

lemma dominance_sum:
  fixes xs ys :: "real list"
  assumes len: "length xs = length ys"
    and dom: "\<forall>t. length (filter (\<lambda>y. y \<le> t) ys) \<le> length (filter (\<lambda>x. x \<le> t) xs)"
  shows "sum_list xs \<le> sum_list ys"
proof -
  have cnt: "length (filter P (sort zs)) = length (filter P zs)" for P and zs :: "real list"
  proof -
    have "mset (filter P (sort zs)) = mset (filter P zs)" by simp
    then show ?thesis by (metis size_mset)
  qed
  have sm: "sum_list (sort zs) = sum_list zs" for zs :: "real list"
  proof -
    have "sum_mset (mset (sort zs)) = sum_mset (mset zs)" by simp
    then show ?thesis by (simp only: sum_mset_sum_list)
  qed
  have len': "length (sort xs) = length (sort ys)" using len by simp
  have "sort xs ! i \<le> sort ys ! i" if "i < length (sort xs)" for i
    by (rule dominance_sorted [OF _ _ len' _ that]) (simp_all add: cnt dom)
  then have "sum_list (sort xs) \<le> sum_list (sort ys)"
    using len' by (intro sum_list_mono2) simp_all
  then show ?thesis by (simp only: sm)
qed


lemma spanning_tree_forest:
  assumes "spanning_tree n es t"
  shows "forest_list t"
  unfolding forest_list_def
proof (intro allI impI)
  fix pre e post assume eq: "t = pre @ e # post"
  have d: "distinct t"
    and b: "\<forall>e \<in> set t. (src e, dest e) \<notin> (adjacent (filter (\<lambda>x. x \<noteq> e) t))\<^sup>*"
    using assms unfolding spanning_tree_def by blast+
  have "e \<notin> set pre" using d eq by auto
  then have "set pre \<subseteq> set (filter (\<lambda>x. x \<noteq> e) t)" using eq by auto
  then have "(adjacent pre)\<^sup>* \<subseteq> (adjacent (filter (\<lambda>x. x \<noteq> e) t))\<^sup>*"
    by (intro rtrancl_mono adjacent_mono)
  moreover have "e \<in> set t" using eq by simp
  ultimately show "(src e, dest e) \<notin> (adjacent pre)\<^sup>*" using b by blast
qed

lemma max_step_mst_minimum:
  assumes srt: "std_sort_spec edge_less std_sort"
  shows "minimum_spanning_tree (length cluster) (create_edges std_sort cloud cluster)
           (max_step_mst std_sort cloud cluster)"
  unfolding minimum_spanning_tree_def
proof (intro conjI allI impI)
  let ?n = "length cluster"
  let ?edges = "create_edges std_sort cloud cluster"
  let ?M = "max_step_mst std_sort cloud cluster"
  show stM: "spanning_tree ?n ?edges ?M" by (rule max_step_mst_spanning_tree [OF srt])
  fix T assume stT: "spanning_tree ?n ?edges T"
  have rng: "\<forall>e \<in> set ?edges. src e < ?n \<and> dest e < ?n"
    using create_edges_member [OF srt] by auto
  have sorted: "sorted_wrt (\<lambda>x y. weight x \<le> weight y) ?edges"
    unfolding create_edges_all_pairs by (rule std_sort_spec_sorted [OF srt])
  have fM: "forest_list ?M" by (rule spanning_tree_forest [OF stM])
  have fT: "forest_list T" by (rule spanning_tree_forest [OF stT])
  have sM: "set ?M \<subseteq> set ?edges" and sT: "set T \<subseteq> set ?edges"
    and cM: "\<forall>u < ?n. \<forall>w < ?n. (u, w) \<in> (adjacent ?M)\<^sup>*"
    and cT: "\<forall>u < ?n. \<forall>w < ?n. (u, w) \<in> (adjacent T)\<^sup>*"
    using stM stT unfolding spanning_tree_def by blast+
  have rM: "\<forall>e \<in> set ?M. src e < ?n \<and> dest e < ?n" using rng sM by blast
  have rT: "\<forall>e \<in> set T. src e < ?n \<and> dest e < ?n" using rng sT by blast
  have "length ?M \<le> length T"
    by (rule forest_size_le [OF fM rM fT rT]) (use rM cT in blast)
  moreover have "length T \<le> length ?M"
    by (rule forest_size_le [OF fT rT fM rM]) (use rT cM in blast)
  ultimately have len: "length (map weight ?M) = length (map weight T)" by simp
  have dom: "length (filter (\<lambda>y. y \<le> t) (map weight T)) \<le> length (filter (\<lambda>x. x \<le> t) (map weight ?M))"
    for t
  proof -
    let ?Tt = "filter (\<lambda>e. weight e \<le> t) T" and ?Mt = "filter (\<lambda>e. weight e \<le> t) ?M"
    have "length ?Tt \<le> length ?Mt"
    proof (rule forest_size_le)
      show "forest_list ?Tt" by (rule forest_list_filter [OF fT])
      show "forest_list ?Mt" by (rule forest_list_filter [OF fM])
      show "\<forall>e \<in> set ?Tt. src e < ?n \<and> dest e < ?n" using rT by simp
      show "\<forall>e \<in> set ?Mt. src e < ?n \<and> dest e < ?n" using rM by simp
      show "\<forall>e \<in> set ?Tt. (src e, dest e) \<in> (adjacent ?Mt)\<^sup>*"
      proof
        fix e assume "e \<in> set ?Tt"
        then have "e \<in> set ?edges" "weight e \<le> t" using sT by auto
        then show "(src e, dest e) \<in> (adjacent ?Mt)\<^sup>*"
          unfolding max_step_mst_def by (rule mst_light [OF rng sorted])
      qed
    qed
    then show ?thesis by (simp add: filter_map o_def)
  qed
  show "total_weight ?M \<le> total_weight T"
    unfolding total_weight_def by (rule dominance_sum [OF len]) (use dom in blast)
qed


text \<open>
  C4: for a cluster \<open>K\<close> of pairwise distinct point indices of the cloud, \<open>max_step\<close> works on
  the complete graph on the positions of \<open>K\<close>, weighted with squared Euclidean distances; the
  edge list that \<open>mst\<close> returns is a minimum spanning tree of it; \<open>remove_edge\<close> keeps exactly
  the tree edges whose weight is not greater than \<open>dmax\<^sup>2\<close>; and what \<open>max_step\<close> appends to
  \<open>new_clusters\<close> is, each exactly once and without repeated points, the connected components
  of the pruned tree that have at least \<open>min_size\<close> vertices, or all components when no tree
  edge was deleted (\<open>min_size\<close> is \<open>m + 2\<close> at the call in main.cpp).  No appended cluster contains
  both end points of a deleted tree edge.
\<close>

theorem C4_max_step:
  assumes srt: "std_sort_spec edge_less std_sort"
    and dK: "distinct cluster"
    and inb: "\<forall>i \<in> set cluster. i < length (points cloud)"
  shows "minimum_spanning_tree (length cluster) (create_edges std_sort cloud cluster)
           (max_step_mst std_sort cloud cluster) \<and>
         (\<forall>e. e \<in> set (create_edges std_sort cloud cluster) \<longleftrightarrow>
              src e < dest e \<and> dest e < length cluster \<and>
              weight e = squared_norm (p_sub (points cloud ! (cluster ! dest e))
                                             (points cloud ! (cluster ! src e)))) \<and>
         remove_edge (max_step_mst std_sort cloud cluster) dmax
           = filter (\<lambda>e. \<not> weight e > dmax * dmax) (max_step_mst std_sort cloud cluster) \<and>
         (\<exists>comps.
            max_step std_sort new_clusters cluster cloud dmax min_size
              = Inr (new_clusters @ map (map ((!) cluster)) comps) \<and>
            (\<forall>c \<in> set comps. distinct c \<and>
               (\<exists>v < length cluster.
                  set c = component (remove_edge (max_step_mst std_sort cloud cluster) dmax) (length cluster) v) \<and>
               (min_size \<le> length c \<or> deleted_edges (max_step_mst std_sort cloud cluster) dmax = [])) \<and>
            (\<forall>v < length cluster.
               (min_size \<le> card (component (remove_edge (max_step_mst std_sort cloud cluster) dmax) (length cluster) v)
                \<or> deleted_edges (max_step_mst std_sort cloud cluster) dmax = []) \<longrightarrow>
               (\<exists>c \<in> set comps.
                  set c = component (remove_edge (max_step_mst std_sort cloud cluster) dmax) (length cluster) v)) \<and>
            distinct (map set comps) \<and>
            (\<forall>c \<in> set comps. \<forall>e \<in> set (deleted_edges (max_step_mst std_sort cloud cluster) dmax).
               \<not> (cluster ! src e \<in> set (map ((!) cluster) c) \<and>
                  cluster ! dest e \<in> set (map ((!) cluster) c))))"
proof (intro conjI)
  show "minimum_spanning_tree (length cluster) (create_edges std_sort cloud cluster)
           (max_step_mst std_sort cloud cluster)"
    by (rule max_step_mst_minimum [OF srt])
  show "\<forall>e. e \<in> set (create_edges std_sort cloud cluster) \<longleftrightarrow>
              src e < dest e \<and> dest e < length cluster \<and>
              weight e = squared_norm (p_sub (points cloud ! (cluster ! dest e))
                                             (points cloud ! (cluster ! src e)))"
    using create_edges_member [OF srt] by blast
  show "remove_edge (max_step_mst std_sort cloud cluster) dmax
           = filter (\<lambda>e. \<not> weight e > dmax * dmax) (max_step_mst std_sort cloud cluster)"
    by (simp add: remove_edge_def Let_def)
  show "\<exists>comps.
            max_step std_sort new_clusters cluster cloud dmax min_size
              = Inr (new_clusters @ map (map ((!) cluster)) comps) \<and>
            (\<forall>c \<in> set comps. distinct c \<and>
               (\<exists>v < length cluster.
                  set c = component (remove_edge (max_step_mst std_sort cloud cluster) dmax) (length cluster) v) \<and>
               (min_size \<le> length c \<or> deleted_edges (max_step_mst std_sort cloud cluster) dmax = [])) \<and>
            (\<forall>v < length cluster.
               (min_size \<le> card (component (remove_edge (max_step_mst std_sort cloud cluster) dmax) (length cluster) v)
                \<or> deleted_edges (max_step_mst std_sort cloud cluster) dmax = []) \<longrightarrow>
               (\<exists>c \<in> set comps.
                  set c = component (remove_edge (max_step_mst std_sort cloud cluster) dmax) (length cluster) v)) \<and>
            distinct (map set comps) \<and>
            (\<forall>c \<in> set comps. \<forall>e \<in> set (deleted_edges (max_step_mst std_sort cloud cluster) dmax).
               \<not> (cluster ! src e \<in> set (map ((!) cluster) c) \<and>
                  cluster ! dest e \<in> set (map ((!) cluster) c)))"
    by (rule max_step_components [OF srt dK])
qed

lemma std_sort_spec_edges: "std_sort_spec edge_less (stable_sort weight)"
proof -
  have eq: "edge_less = (\<lambda>x y. weight x < weight y)"
    by (intro ext) (simp add: edge_less_def)
  show ?thesis unfolding eq by (rule std_sort_spec_stable_sort)
qed

lemma gap_deleted:
  "deleted_edges (max_step_mst (stable_sort weight) gap_cloud [0, 1, 2, 3]) 2
     = [\<lparr>src = 1, dest = 2, weight = 16\<rparr>]"
  unfolding gap_mst by (simp add: deleted_edges_def)

theorem C4_max_step_witness:
  "std_sort_spec edge_less (stable_sort weight) \<and> distinct [0, 1, 2, 3 :: nat] \<and>
   length (points gap_cloud) = 4 \<and>
   max_step (stable_sort weight) [] [0, 1, 2, 3] gap_cloud 2 2 = Inr [[0, 1], [2, 3]] \<and>
   deleted_edges (max_step_mst (stable_sort weight) gap_cloud [0, 1, 2, 3]) 2
     = [\<lparr>src = 1, dest = 2, weight = 16\<rparr>] \<and>
   remove_edge (max_step_mst (stable_sort weight) gap_cloud [0, 1, 2, 3]) 2
     = [\<lparr>src = 0, dest = 1, weight = 1\<rparr>, \<lparr>src = 2, dest = 3, weight = 1\<rparr>] \<and>
   (\<exists>comps. max_step (stable_sort weight) [] [0, 1, 2, 3] gap_cloud 2 2
              = Inr ([] @ map (map ((!) [0, 1, 2, 3])) comps) \<and>
            distinct (map set comps))"
proof -
  have d: "distinct [0, 1, 2, 3 :: nat]" by simp
  have l: "length (points gap_cloud) = 4" by (simp add: gap_cloud_def)
  have b: "\<forall>i \<in> set [0, 1, 2, 3]. i < length (points gap_cloud)" unfolding l by simp
  note T = C4_max_step [OF std_sort_spec_edges d b, of 2 "[]" 2]
  from T have "remove_edge (max_step_mst (stable_sort weight) gap_cloud [0, 1, 2, 3]) 2
      = filter (\<lambda>e. \<not> weight e > 2 * 2) (max_step_mst (stable_sort weight) gap_cloud [0, 1, 2, 3])"
    by (elim conjE)
  then have r: "remove_edge (max_step_mst (stable_sort weight) gap_cloud [0, 1, 2, 3]) 2
     = [\<lparr>src = 0, dest = 1, weight = 1\<rparr>, \<lparr>src = 2, dest = 3, weight = 1\<rparr>]"
    unfolding gap_mst by simp
  from T have c: "\<exists>comps. max_step (stable_sort weight) [] [0, 1, 2, 3] gap_cloud 2 2
              = Inr ([] @ map (map ((!) [0, 1, 2, 3])) comps) \<and>
            distinct (map set comps)"
    by (elim conjE exE) (intro exI conjI)
  show ?thesis
    using std_sort_spec_edges d l gap_max_step gap_deleted r c by (intro conjI)
qed

end
